theory Spec2Isabelle
  imports Complex_Main "HOL-Library.Multiset"
begin

section \<open>Values and errors\<close>

text \<open>
  Virtual time, delays and service times are Python numbers (the tests use integers, the
  replica uses floats). They are modelled as exact rationals: every theorem below is about
  the scheduling logic under exact arithmetic, not about floating-point rounding.
\<close>

type_synonym time = rat

datatype error =
    NegativeDelay
  | NegativeUntil
  | AssertionError
  | IndexError
  | TypeError
  | ZeroDivisionError
  | RuntimeError string

section \<open>The event kernel\<close>

text \<open>
  Modelled from the spec: the class SimulatorKernel (the repository has only its test,
  SimulatorKernel_test.py). An Event is (fireTime, sequenceNumber, callbackIdentity); the
  action of a callback identity is given by the handler the run loop is called with.
\<close>

record 'cb event =
  fireTime :: time
  sequenceNumber :: nat
  callbackIdentity :: 'cb

record 'cb EventKernel =
  now :: time
  events :: "'cb event list"
  nextSequenceNumber :: nat

text \<open>Modelled from the spec: a fresh kernel; virtual time starts at 0, nothing is pending.\<close>

definition SimulatorKernel :: "'cb EventKernel" where
  "SimulatorKernel = \<lparr>now = 0, events = [], nextSequenceNumber = 0\<rparr>"

text \<open>
  Modelled from the spec: add(delay, callback) always creates a new Event firing at
  now + delay; a negative delay is rejected.
\<close>

definition add :: "time \<Rightarrow> 'cb \<Rightarrow> 'cb EventKernel \<Rightarrow> error + 'cb EventKernel" where
  "add delay what k =
     (if delay < 0 then Inl NegativeDelay
      else Inr (k\<lparr>events := events k @
                   [\<lparr>fireTime = now k + delay,
                     sequenceNumber = nextSequenceNumber k,
                     callbackIdentity = what\<rparr>],
                 nextSequenceNumber := Suc (nextSequenceNumber k)\<rparr>))"

text \<open>
  Modelled from the spec: update(delay, callback) cancels every pending Event whose
  callback identity equals this callback's, then performs the equivalent of add.
\<close>

definition update :: "time \<Rightarrow> 'cb \<Rightarrow> 'cb EventKernel \<Rightarrow> error + 'cb EventKernel" where
  "update delay what k =
     (if delay < 0 then Inl NegativeDelay
      else add delay what (k\<lparr>events := filter (\<lambda>e. callbackIdentity e \<noteq> what) (events k)\<rparr>))"

text \<open>
  Modelled from the spec: the order of firing is by (fireTime, sequenceNumber); ties in
  fireTime fire in insertion order.
\<close>

definition fires_before :: "'cb event \<Rightarrow> 'cb event \<Rightarrow> bool" where
  "fires_before e m \<longleftrightarrow>
     fireTime e < fireTime m \<or> (fireTime e = fireTime m \<and> sequenceNumber e \<le> sequenceNumber m)"

fun earliest :: "'cb event list \<Rightarrow> 'cb event option" where
  "earliest [] = None"
| "earliest (e # es) =
     (case earliest es of
        None \<Rightarrow> Some e
      | Some m \<Rightarrow> if fires_before e m then Some e else Some m)"

type_synonym ('cb, 's) world = "'cb EventKernel \<times> 's"

type_synonym ('cb, 's) handler = "'cb \<Rightarrow> ('cb, 's) world \<Rightarrow> error + ('cb, 's) world"

text \<open>
  Modelled from the spec: one turn of the run loop pops the Event with the smallest
  (fireTime, sequenceNumber), advances now to its fireTime and invokes its callback.
\<close>

definition fire :: "('cb, 's) handler \<Rightarrow> 'cb event \<Rightarrow> ('cb, 's) world \<Rightarrow> error + ('cb, 's) world" where
  "fire h e w =
     h (callbackIdentity e)
       ((fst w)\<lparr>now := fireTime e, events := remove1 e (events (fst w))\<rparr>, snd w)"

text \<open>
  Modelled from the spec: run(until) stops when the queue is empty, or when the next
  Event's fireTime exceeds until (if given); an Event at exactly until is executed. The
  loop need not end (a callback may re-arm itself for ever), so it takes fuel: one unit per
  turn of the loop, and None when the fuel runs out before the loop stops. An exception of
  a callback ends the run.
\<close>

fun run_loop :: "nat \<Rightarrow> ('cb, 's) handler \<Rightarrow> time option \<Rightarrow> ('cb, 's) world
    \<Rightarrow> (error + ('cb, 's) world) option" where
  "run_loop 0 h until w = None"
| "run_loop (Suc n) h until w =
     (case earliest (events (fst w)) of
        None \<Rightarrow> Some (Inr w)
      | Some e \<Rightarrow>
          if (case until of None \<Rightarrow> False | Some u \<Rightarrow> u < fireTime e) then Some (Inr w)
          else (case fire h e w of
                  Inl err \<Rightarrow> Some (Inl err)
                | Inr w' \<Rightarrow> run_loop n h until w'))"

text \<open>Modelled from the spec: run invoked with a negative until fails fast.\<close>

definition run :: "nat \<Rightarrow> ('cb, 's) handler \<Rightarrow> time option \<Rightarrow> ('cb, 's) world
    \<Rightarrow> (error + ('cb, 's) world) option" where
  "run fuel h until w =
     (case until of
        Some u \<Rightarrow> if u < 0 then Some (Inl NegativeUntil) else run_loop fuel h until w
      | None \<Rightarrow> run_loop fuel h until w)"

subsection \<open>The kernel's tests\<close>

text \<open>
  SimulatorKernel_test.py: the callbacks of test_update_event (toRun) and of
  test_run_until (the lambda that calls runPeriodically with a period). The state beside
  the kernel is the list eventsExecuted.
\<close>

datatype test_callback = ToRun | RunPeriodically time

text \<open>Python's x % y on numbers: x - y * floor (x / y).\<close>

definition py_mod :: "rat \<Rightarrow> rat \<Rightarrow> rat" where
  "py_mod x y = x - y * of_int \<lfloor>x / y\<rfloor>"

definition assertShouldRunAt :: "time \<Rightarrow> (test_callback, time list) world
    \<Rightarrow> error + (test_callback, time list) world" where
  "assertShouldRunAt when w =
     (let w' = (fst w, snd w @ [now (fst w)])
      in if now (fst w) = when then Inr w' else Inl AssertionError)"

definition assertShouldRunPeriodically :: "time \<Rightarrow> (test_callback, time list) world
    \<Rightarrow> error + (test_callback, time list) world" where
  "assertShouldRunPeriodically period w =
     (let w' = (fst w, snd w @ [now (fst w)])
      in if py_mod (now (fst w)) period = 0 then Inr w' else Inl AssertionError)"

definition runPeriodically :: "time \<Rightarrow> (test_callback, time list) world
    \<Rightarrow> error + (test_callback, time list) world" where
  "runPeriodically period w =
     (case assertShouldRunPeriodically period w of
        Inl err \<Rightarrow> Inl err
      | Inr w' \<Rightarrow>
          (case add period (RunPeriodically period) (fst w') of
             Inl err \<Rightarrow> Inl err
           | Inr k' \<Rightarrow> Inr (k', snd w')))"

fun test_handler :: "(test_callback, time list) handler" where
  "test_handler ToRun w = assertShouldRunAt 100 w"
| "test_handler (RunPeriodically period) w = runPeriodically period w"

text \<open>test_update_event: sim.add(0, toRun); sim.update(100, toRun); sim.run().\<close>

definition test_update_event :: "nat \<Rightarrow> (error + (test_callback, time list) world) option" where
  "test_update_event fuel =
     (case add 0 ToRun SimulatorKernel of
        Inl err \<Rightarrow> Some (Inl err)
      | Inr k1 \<Rightarrow>
          (case update 100 ToRun k1 of
             Inl err \<Rightarrow> Some (Inl err)
           | Inr k2 \<Rightarrow> run fuel test_handler None (k2, [])))"

text \<open>test_run_until: runPeriodically(sim, 100, eventsExecuted); sim.run(until = 1000).\<close>

definition test_run_until :: "nat \<Rightarrow> (error + (test_callback, time list) world) option" where
  "test_run_until fuel =
     (case runPeriodically 100 (SimulatorKernel, []) of
        Inl err \<Rightarrow> Some (Inl err)
      | Inr w \<Rightarrow> run fuel test_handler (Some 1000) w)"

section \<open>The auto-scaler (plants/autoscaler.py)\<close>

datatype BackendStatus = STOPPED | STARTING | STARTED | STOPPING

text \<open>
  A back-end server as the auto-scaler sees it: an object with the attribute
  autoScaleStatus. The list self.backends holds references; a backend is named below by its
  position in that list (addBackend only ever appends).
\<close>

record backend =
  backendName :: string
  autoScaleStatus :: BackendStatus

text \<open>
  The values a scaling action or a target can be: a Python integer, the float NaN, or
  None. The code is Python 2 (execfile, reduce, range compared with a list), where None
  orders below every number and NaN compares False with everything.
\<close>

datatype pyvalue = PyInt int | PyNaN | PyNone

definition py_eq :: "pyvalue \<Rightarrow> int \<Rightarrow> bool" where
  "py_eq v n = (case v of PyInt x \<Rightarrow> x = n | PyNaN \<Rightarrow> False | PyNone \<Rightarrow> False)"

definition py_gt :: "pyvalue \<Rightarrow> int \<Rightarrow> bool" where
  "py_gt v n = (case v of PyInt x \<Rightarrow> n < x | PyNaN \<Rightarrow> False | PyNone \<Rightarrow> False)"

definition py_lt :: "pyvalue \<Rightarrow> int \<Rightarrow> bool" where
  "py_lt v n = (case v of PyInt x \<Rightarrow> x < n | PyNaN \<Rightarrow> False | PyNone \<Rightarrow> True)"

text \<open>by -= 1 and by += 1: arithmetic on None raises TypeError.\<close>

definition py_add :: "pyvalue \<Rightarrow> int \<Rightarrow> error + pyvalue" where
  "py_add v n = (case v of PyInt x \<Rightarrow> Inr (PyInt (x + n)) | PyNaN \<Rightarrow> Inr PyNaN | PyNone \<Rightarrow> Inl TypeError)"

text \<open>
  The controller (AbstractAutoScalerController and its subclasses): the hook onStatus maps
  the dictionary of getStatus to a scaling action. The startup delay is a number or a
  callable; a callable is a function of the number of calls made to it so far.
\<close>

datatype delay_source = FixedDelay time | CallableDelay "nat \<Rightarrow> time"

record controller =
  controlInterval :: time
  onStatus :: "(BackendStatus \<Rightarrow> nat) \<Rightarrow> pyvalue"
  startupDelay :: delay_source

definition AbstractAutoScalerController :: "time \<Rightarrow> delay_source \<Rightarrow> controller" where
  "AbstractAutoScalerController interval delay =
     \<lparr>controlInterval = interval, onStatus = (\<lambda>status. PyInt 0), startupDelay = delay\<rparr>"

datatype as_callback = RunReportLoop | InitialOnStatus | RunControlLoop | StartupCompleted nat

text \<open>
  The state of an AutoScaler. Beside its own attributes it holds what its calls leave in its
  collaborators. Modelled from the spec: sim.log appends a line to the kernel's log (here
  logged: the backend and the message); the routing layer's addBackend registers a backend
  (lbBackends) and its removeBackend(backend, onDrained) unregisters it and keeps the
  callback until the backend has drained (lbDraining), so shutdownCompleted is not called
  from inside scaleDown.
\<close>

record AutoScaler =
  backends :: "backend list"
  numRequests :: nat
  lastTheta :: rat
  reportInterval :: time
  delayCalls :: nat
  logged :: "(string \<times> string) list"
  lbBackends :: "nat list"
  lbDraining :: "nat list"

type_synonym as_world = "(as_callback, AutoScaler) world"

text \<open>What a method leaves: it returns, or it raises with the state as mutated so far.\<close>

datatype 'w outcome = Return 'w | Raise error 'w

text \<open>The constructor: the attributes, and the three events it adds to the simulator.\<close>

definition AutoScaler_init :: "controller \<Rightarrow> as_callback EventKernel \<Rightarrow> as_world outcome" where
  "AutoScaler_init c k =
     (let a = \<lparr>backends = [], numRequests = 0, lastTheta = 1, reportInterval = 1,
                delayCalls = 0, logged = [], lbBackends = [], lbDraining = []\<rparr>
      in case add (reportInterval a) RunReportLoop k of
           Inl err \<Rightarrow> Raise err (k, a)
         | Inr k1 \<Rightarrow>
             (case add 0 InitialOnStatus k1 of
                Inl err \<Rightarrow> Raise err (k1, a)
              | Inr k2 \<Rightarrow>
                  (case add (controlInterval c) RunControlLoop k2 of
                     Inl err \<Rightarrow> Raise err (k2, a)
                   | Inr k3 \<Rightarrow> Return (k3, a))))"

definition addBackend :: "string \<Rightarrow> as_world \<Rightarrow> as_world" where
  "addBackend name w =
     (fst w, (snd w)\<lparr>backends := backends (snd w) @
                         [\<lparr>backendName = name, autoScaleStatus = STOPPED\<rparr>]\<rparr>)"

text \<open>[ backend for backend in self.backends if backend.autoScaleStatus == s ], by position.\<close>

definition backendsWithStatus :: "BackendStatus \<Rightarrow> backend list \<Rightarrow> nat list" where
  "backendsWithStatus s bs = filter (\<lambda>i. autoScaleStatus (bs ! i) = s) [0..<length bs]"

definition setStatus :: "nat \<Rightarrow> BackendStatus \<Rightarrow> backend list \<Rightarrow> backend list" where
  "setStatus i s bs = bs[i := (bs ! i)\<lparr>autoScaleStatus := s\<rparr>]"

definition getStatus :: "AutoScaler \<Rightarrow> error + (BackendStatus \<Rightarrow> nat)" where
  "getStatus a =
     (let numBackends = length (backends a);
          numStopped = length (backendsWithStatus STOPPED (backends a));
          numStarting = length (backendsWithStatus STARTING (backends a));
          numStarted = length (backendsWithStatus STARTED (backends a));
          numStopping = length (backendsWithStatus STOPPING (backends a))
      in if numBackends = numStarting + numStarted + numStopped + numStopping
         then Inr (\<lambda>s. case s of STOPPED \<Rightarrow> numStopped | STARTING \<Rightarrow> numStarting
                          | STARTED \<Rightarrow> numStarted | STOPPING \<Rightarrow> numStopping)
         else Inl AssertionError)"

text \<open>
  scaleBy, scaleUp and scaleDown call each other (scaleUp and scaleDown feed the
  controller's answer to onStatus back into scaleBy), and the strategy decides whether that
  ends. The functions take fuel: one unit per call and per turn of a while loop; None when
  it runs out. scaleBy_up and scaleBy_down are the two while loops of scaleBy.
\<close>

function (sequential) scaleBy :: "nat \<Rightarrow> controller \<Rightarrow> pyvalue \<Rightarrow> as_world \<Rightarrow> as_world outcome option"
and scaleBy_up :: "nat \<Rightarrow> controller \<Rightarrow> pyvalue \<Rightarrow> as_world \<Rightarrow> as_world outcome option"
and scaleBy_down :: "nat \<Rightarrow> controller \<Rightarrow> pyvalue \<Rightarrow> as_world \<Rightarrow> as_world outcome option"
and scaleUp :: "nat \<Rightarrow> controller \<Rightarrow> as_world \<Rightarrow> as_world outcome option"
and scaleDown :: "nat \<Rightarrow> controller \<Rightarrow> as_world \<Rightarrow> as_world outcome option" where
  "scaleBy 0 c by w = None"
| "scaleBy (Suc f) c by w =
     (if py_eq by 0 then Some (Return w) else scaleBy_up f c by w)"
| "scaleBy_up 0 c by w = None"
| "scaleBy_up (Suc f) c by w =
     (if py_gt by 0 then
        (case scaleUp f c w of
           None \<Rightarrow> None
         | Some (Raise err w') \<Rightarrow> Some (Raise err w')
         | Some (Return w') \<Rightarrow>
             (case py_add by (- 1) of
                Inl err \<Rightarrow> Some (Raise err w')
              | Inr by' \<Rightarrow> scaleBy_up f c by' w'))
      else scaleBy_down f c by w)"
| "scaleBy_down 0 c by w = None"
| "scaleBy_down (Suc f) c by w =
     (if py_lt by 0 then
        (case scaleDown f c w of
           None \<Rightarrow> None
         | Some (Raise err w') \<Rightarrow> Some (Raise err w')
         | Some (Return w') \<Rightarrow>
             (case py_add by 1 of
                Inl err \<Rightarrow> Some (Raise err w')
              | Inr by' \<Rightarrow> scaleBy_down f c by' w'))
      else Some (Return w))"
| "scaleUp 0 c w = None"
| "scaleUp (Suc f) c w =
     (case backendsWithStatus STOPPED (backends (snd w)) of
        [] \<Rightarrow> Some (Raise (RuntimeError
                 ''AutoScaler was asked to scale up, but no backends are available.'') w)
      | backendToStart # _ \<Rightarrow>
          (let a1 = (snd w)\<lparr>logged := logged (snd w) @
                        [(backendName (backends (snd w) ! backendToStart), ''STARTING'')]\<rparr>;
               a2 = a1\<lparr>backends := setStatus backendToStart STARTING (backends a1)\<rparr>;
               delay = (case startupDelay c of
                          FixedDelay d \<Rightarrow> d
                        | CallableDelay g \<Rightarrow> g (delayCalls a2));
               a3 = (case startupDelay c of
                       FixedDelay d \<Rightarrow> a2
                     | CallableDelay g \<Rightarrow> a2\<lparr>delayCalls := Suc (delayCalls a2)\<rparr>)
           in case add delay (StartupCompleted backendToStart) (fst w) of
                Inl err \<Rightarrow> Some (Raise err (fst w, a3))
              | Inr k \<Rightarrow>
                  (case getStatus a3 of
                     Inl err \<Rightarrow> Some (Raise err (k, a3))
                   | Inr status \<Rightarrow> scaleBy f c (onStatus c status) (k, a3))))"
| "scaleDown 0 c w = None"
| "scaleDown (Suc f) c w =
     (case rev (backendsWithStatus STARTED (backends (snd w))) of
        [] \<Rightarrow> Some (Raise (RuntimeError
                 ''AutoScaler was asked to scale down, but no backends are started.'') w)
      | backendToStop # _ \<Rightarrow>
          (let a1 = (snd w)\<lparr>logged := logged (snd w) @
                        [(backendName (backends (snd w) ! backendToStop), ''STOPPING'')]\<rparr>;
               a2 = a1\<lparr>backends := setStatus backendToStop STOPPING (backends a1)\<rparr>;
               a3 = a2\<lparr>lbBackends := removeAll backendToStop (lbBackends a2),
                       lbDraining := lbDraining a2 @ [backendToStop]\<rparr>
           in case getStatus a3 of
                Inl err \<Rightarrow> Some (Raise err (fst w, a3))
              | Inr status \<Rightarrow> scaleBy f c (onStatus c status) (fst w, a3)))"
  by pat_completeness auto
termination
  apply (relation "measure (\<lambda>x. case x of Inl (Inl a) \<Rightarrow> fst a | Inl (Inr a) \<Rightarrow> fst a
      | Inr (Inl a) \<Rightarrow> fst a | Inr (Inr (Inl a)) \<Rightarrow> fst a | Inr (Inr (Inr a)) \<Rightarrow> fst a)")
  apply simp_all
  done

text \<open>
  The closure startupCompleted of scaleUp, which the kernel calls when the
  StartupCompleted event of the backend fires.
\<close>

definition startupCompleted :: "nat \<Rightarrow> controller \<Rightarrow> nat \<Rightarrow> as_world \<Rightarrow> as_world outcome option" where
  "startupCompleted fuel c backendToStart w =
     (let a1 = (snd w)\<lparr>backends := setStatus backendToStart STARTED (backends (snd w))\<rparr>;
          a2 = a1\<lparr>lbBackends := lbBackends a1 @ [backendToStart]\<rparr>;
          a3 = a2\<lparr>logged := logged a2 @ [(backendName (backends a2 ! backendToStart), ''STARTED'')]\<rparr>
      in case getStatus a3 of
           Inl err \<Rightarrow> Some (Raise err (fst w, a3))
         | Inr status \<Rightarrow> scaleBy fuel c (onStatus c status) (fst w, a3))"

text \<open>
  The closure shutdownCompleted of scaleDown, which the routing layer calls once the
  backend has drained.
\<close>

definition shutdownCompleted :: "nat \<Rightarrow> controller \<Rightarrow> nat \<Rightarrow> as_world \<Rightarrow> as_world outcome option" where
  "shutdownCompleted fuel c backendToStop w =
     (let a1 = (snd w)\<lparr>logged := logged (snd w) @
                   [(backendName (backends (snd w) ! backendToStop), ''STOPPED'')]\<rparr>;
          a2 = a1\<lparr>backends := setStatus backendToStop STOPPED (backends a1),
                  lbDraining := removeAll backendToStop (lbDraining a1)\<rparr>
      in case getStatus a2 of
           Inl err \<Rightarrow> Some (Raise err (fst w, a2))
         | Inr status \<Rightarrow> scaleBy fuel c (onStatus c status) (fst w, a2))"

text \<open>scaleTo: the guards, then the loop while True (one unit of fuel per turn).\<close>

fun scaleTo_loop :: "nat \<Rightarrow> controller \<Rightarrow> pyvalue \<Rightarrow> as_world \<Rightarrow> as_world outcome option" where
  "scaleTo_loop 0 c numReplicas w = None"
| "scaleTo_loop (Suc f) c numReplicas w =
     (case getStatus (snd w) of
        Inl err \<Rightarrow> Some (Raise err w)
      | Inr status \<Rightarrow>
          (let numReplicasThatWillBeStarted = int (status STARTING) + int (status STARTED)
           in if py_gt numReplicas numReplicasThatWillBeStarted then
                (case scaleUp f c w of
                   None \<Rightarrow> None
                 | Some (Raise err w') \<Rightarrow> Some (Raise err w')
                 | Some (Return w') \<Rightarrow> scaleTo_loop f c numReplicas w')
              else if py_lt numReplicas numReplicasThatWillBeStarted then
                (case scaleDown f c w of
                   None \<Rightarrow> None
                 | Some (Raise err w') \<Rightarrow> Some (Raise err w')
                 | Some (Return w') \<Rightarrow> scaleTo_loop f c numReplicas w')
              else Some (Return w)))"

text \<open>
  '{0}'.format(numReplicas): str of a Python value. An integer is written with its decimal
  digits, after a minus sign when it is negative.
\<close>

fun decimalDigits :: "nat \<Rightarrow> string" where
  "decimalDigits n =
     (if n < 10 then [''0123456789'' ! n]
      else decimalDigits (n div 10) @ [''0123456789'' ! (n mod 10)])"

declare decimalDigits.simps [simp del]

definition py_format :: "pyvalue \<Rightarrow> string" where
  "py_format v =
     (case v of
        PyInt n \<Rightarrow> if n < 0 then CHR ''-'' # decimalDigits (nat (- n)) else decimalDigits (nat n)
      | PyNaN \<Rightarrow> ''nan''
      | PyNone \<Rightarrow> ''None'')"

definition scaleTo :: "nat \<Rightarrow> controller \<Rightarrow> pyvalue \<Rightarrow> as_world \<Rightarrow> as_world outcome option" where
  "scaleTo fuel c numReplicas w =
     (if numReplicas = PyNone \<or> numReplicas = PyNaN then Some (Return w)
      else if py_lt numReplicas 0 then
        Some (Raise (RuntimeError
          (append ''Scaling to a negative number of replicas does not make sense: ''
             (py_format numReplicas))) w)
      else scaleTo_loop fuel c numReplicas w)"

subsection \<open>Notions used to state the auto-scaler's properties\<close>

text \<open>
  A controller that answers every status with 0, as AbstractAutoScalerController (the
  default controller of the constructor) does: scaleUp and scaleDown then do not cascade.
\<close>

definition unresponsive :: "controller \<Rightarrow> bool" where
  "unresponsive c \<longleftrightarrow> (\<forall>status. onStatus c status = PyInt 0)"

text \<open>
  Position i holds the first (the last) backend, in fleet order, whose status is s.
\<close>

definition firstWithStatus :: "BackendStatus \<Rightarrow> backend list \<Rightarrow> nat \<Rightarrow> bool" where
  "firstWithStatus s bs i \<longleftrightarrow>
     i < length bs \<and> autoScaleStatus (bs ! i) = s \<and> s \<notin> set (map autoScaleStatus (take i bs))"

definition lastWithStatus :: "BackendStatus \<Rightarrow> backend list \<Rightarrow> nat \<Rightarrow> bool" where
  "lastWithStatus s bs i \<longleftrightarrow>
     i < length bs \<and> autoScaleStatus (bs ! i) = s \<and>
     s \<notin> set (map autoScaleStatus (drop (Suc i) bs))"

text \<open>The state a call returned with, if it returned.\<close>

definition returned :: "'w outcome option \<Rightarrow> 'w option" where
  "returned r = (case r of Some (Return w) \<Rightarrow> Some w | Some (Raise err w) \<Rightarrow> None | None \<Rightarrow> None)"

text \<open>The startup delay the next call of scaleUp takes.\<close>

definition nextStartupDelay :: "controller \<Rightarrow> AutoScaler \<Rightarrow> time" where
  "nextStartupDelay c a =
     (case startupDelay c of FixedDelay d \<Rightarrow> d | CallableDelay g \<Rightarrow> g (delayCalls a))"

text \<open>numStarting + numStarted, the count that scaleTo drives to its target.\<close>

definition willBeStarted :: "AutoScaler \<Rightarrow> int" where
  "willBeStarted a =
     int (length (backendsWithStatus STARTING (backends a))) +
     int (length (backendsWithStatus STARTED (backends a)))"

text \<open>n calls of an operation in sequence; the first one that raises ends the sequence.\<close>

fun repeat_calls :: "nat \<Rightarrow> ('w \<Rightarrow> 'w outcome option) \<Rightarrow> 'w \<Rightarrow> 'w outcome option" where
  "repeat_calls 0 f w = Some (Return w)"
| "repeat_calls (Suc n) f w =
     (case f w of
        None \<Rightarrow> None
      | Some (Raise err w') \<Rightarrow> Some (Raise err w')
      | Some (Return w') \<Rightarrow> repeat_calls n f w')"

text \<open>
  The number of backends a unit action can still take: scaleUp takes a STOPPED backend and
  scaleDown a STARTED one, and neither gives one back within a call.
\<close>

definition actionable :: "AutoScaler \<Rightarrow> nat" where
  "actionable a =
     length (backendsWithStatus STOPPED (backends a)) +
     length (backendsWithStatus STARTED (backends a))"

text \<open>The state a call leaves, whether it returned or raised.\<close>

definition stateOf :: "'w outcome \<Rightarrow> 'w" where
  "stateOf r = (case r of Return w \<Rightarrow> w | Raise err w \<Rightarrow> w)"

text \<open>
  The scenario of the spec's testable properties: an auto-scaler with the default
  controller and a startup delay of 60, and the backends A, B, C added in this order (all
  STOPPED); scaleUp three times; then the three startups complete (in the order the kernel
  fires them) and scaleDown is called.
\<close>

definition defaultController :: controller where
  "defaultController = AbstractAutoScalerController 1 (FixedDelay 60)"

definition fleetABC :: "as_world outcome option" where
  "fleetABC =
     (case AutoScaler_init defaultController SimulatorKernel of
        Raise err w \<Rightarrow> Some (Raise err w)
      | Return w \<Rightarrow> Some (Return (addBackend ''C'' (addBackend ''B'' (addBackend ''A'' w)))))"

definition and_then :: "'w outcome option \<Rightarrow> ('w \<Rightarrow> 'w outcome option) \<Rightarrow> 'w outcome option" where
  "and_then r f =
     (case r of
        None \<Rightarrow> None
      | Some (Raise err w) \<Rightarrow> Some (Raise err w)
      | Some (Return w) \<Rightarrow> f w)"

definition threeScaleUps :: "as_world outcome option" where
  "threeScaleUps =
     and_then (and_then (and_then fleetABC (scaleUp 2 defaultController))
       (scaleUp 2 defaultController)) (scaleUp 2 defaultController)"

definition allStarted :: "as_world outcome option" where
  "allStarted =
     and_then (and_then (and_then threeScaleUps
       (startupCompleted 2 defaultController 0))
       (startupCompleted 2 defaultController 1))
       (startupCompleted 2 defaultController 2)"

definition allStartedThenScaleDown :: "as_world outcome option" where
  "allStartedThenScaleDown = and_then allStarted (scaleDown 2 defaultController)"

text \<open>
  A controller that reacts: its onStatus asks for one more replica as long as a backend is
  STOPPED. With it one call of scaleUp cascades through scaleBy into further calls.
\<close>

definition eagerController :: controller where
  "eagerController =
     \<lparr>controlInterval = 1,
      onStatus = (\<lambda>status. if 0 < status STOPPED then PyInt 1 else PyInt 0),
      startupDelay = FixedDelay 60\<rparr>"

section \<open>The replica (Replica.py)\<close>

text \<open>
  A Request (the slots of Replica.Request). requestId is an opaque value and replyTo an
  object with a reply method; both are named here by numbers.
\<close>

record request =
  requestId :: nat
  replyTo :: nat
  withOptional :: bool
  arrival :: time
  departure :: "time option"
  remainingTime :: time

text \<open>A call replyTo.reply(requestId, {'withOptional': b}), and the virtual time it was made at.\<close>

record reply =
  replyAt :: time
  replyReceiver :: nat
  replyRequestId :: nat
  replyWithOptional :: bool

text \<open>A call sim.report(self, ('avgLatency', 'maxLatency', 'utilization'), values).\<close>

record report =
  avgLatency :: "rat option"
  maxLatency :: "rat option"
  utilization :: rat

text \<open>
  The state of a Replica: its attributes, the number of values its generator self._random
  has produced (randomCalls), and what its calls leave in its collaborators: the calls of
  reply (replied) and of sim.report (reported). departed lists the Request objects that have
  been completed, which the Python code drops after the reply; they are kept so that their
  departure stamp can be stated.
\<close>

record Replica =
  timeSlice :: time
  timeY :: "time \<times> time"
  timeN :: "time \<times> time"
  reportPeriod :: time
  activeRequests :: "request list"
  latestLatencies :: "time list"
  activeTime :: time
  activeTimeStarted :: "time option"
  lastActiveTime :: time
  replicaName :: string
  randomCalls :: nat
  replied :: "reply list"
  reported :: "report list"
  departed :: "request list"

datatype replica_callback = ReportLoop | ScheduleRequests | Completed

type_synonym replica_world = "(replica_callback, Replica) world"

text \<open>
  The seeded generator: normalvariate n mu sigma is the value that the n-th call of
  self._random.normalvariate(mu, sigma) returns (the generator is deterministic once seeded).
\<close>

type_synonym generator = "nat \<Rightarrow> time \<Rightarrow> time \<Rightarrow> time"

text \<open>
  Modelled from the spec: avg and maxOrNan of utils (not under src/) give a well-defined
  "no data" value on an empty sample set; None stands for NaN.
\<close>

definition avg :: "rat list \<Rightarrow> rat option" where
  "avg xs = (if xs = [] then None else Some (sum_list xs / of_nat (length xs)))"

definition maxOrNan :: "rat list \<Rightarrow> rat option" where
  "maxOrNan xs = (if xs = [] then None else Some (Max (set xs)))"

definition getActiveTime :: "replica_world \<Rightarrow> time" where
  "getActiveTime w =
     (case activeTimeStarted (snd w) of
        None \<Rightarrow> activeTime (snd w)
      | Some started \<Rightarrow> activeTime (snd w) + (now (fst w) - started))"

definition runReportLoop :: "replica_world \<Rightarrow> error + replica_world" where
  "runReportLoop w =
     (if reportPeriod (snd w) = 0 then Inl ZeroDivisionError
      else
        let util = (getActiveTime w - lastActiveTime (snd w)) / reportPeriod (snd w);
            r1 = (snd w)\<lparr>lastActiveTime := getActiveTime w\<rparr>;
            r2 = r1\<lparr>reported := reported r1 @
                   [\<lparr>avgLatency = avg (latestLatencies r1),
                     maxLatency = maxOrNan (latestLatencies r1),
                     utilization = util\<rparr>]\<rparr>;
            r3 = r2\<lparr>latestLatencies := []\<rparr>
        in case add (reportPeriod r3) ReportLoop (fst w) of
             Inl err \<Rightarrow> Inl err
           | Inr k \<Rightarrow> Inr (k, r3))"

text \<open>The constructor: the attributes, then the first call of _runReportLoop.\<close>

definition Replica_init :: "time \<Rightarrow> time \<times> time \<Rightarrow> time \<times> time \<Rightarrow> string
    \<Rightarrow> replica_callback EventKernel \<Rightarrow> error + replica_world" where
  "Replica_init slice y n name sim =
     runReportLoop
       (sim, \<lparr>timeSlice = slice, timeY = y, timeN = n, reportPeriod = 1,
               activeRequests = [], latestLatencies = [], activeTime = 0,
               activeTimeStarted = None, lastActiveTime = 0, replicaName = name,
               randomCalls = 0, replied = [], reported = [], departed = []\<rparr>)"

definition drawServiceTime :: "generator \<Rightarrow> bool \<Rightarrow> Replica \<Rightarrow> time \<times> Replica" where
  "drawServiceTime normalvariate opt r =
     (let musigma = (if opt then timeY r else timeN r);
          serviceTime = max (normalvariate (randomCalls r) (fst musigma) (snd musigma)) 0
      in (serviceTime, r\<lparr>randomCalls := Suc (randomCalls r)\<rparr>))"

text \<open>request: headers is a dictionary; headers.get('withOptional', False).\<close>

definition request :: "generator \<Rightarrow> nat \<Rightarrow> nat \<Rightarrow> (string \<rightharpoonup> bool) \<Rightarrow> replica_world
    \<Rightarrow> error + replica_world" where
  "request normalvariate rid rto headers w =
     (case (if activeRequests (snd w) = [] then add 0 ScheduleRequests (fst w) else Inr (fst w)) of
        Inl err \<Rightarrow> Inl err
      | Inr k \<Rightarrow>
          (let opt = (case headers ''withOptional'' of None \<Rightarrow> False | Some b \<Rightarrow> b);
               drawn = drawServiceTime normalvariate opt (snd w);
               req = \<lparr>requestId = rid, replyTo = rto, withOptional = opt,
                      arrival = now (fst w), departure = None, remainingTime = fst drawn\<rparr>
           in Inr (k, (snd drawn)\<lparr>activeRequests := activeRequests (snd drawn) @ [req]\<rparr>)))"

text \<open>_onScheduleRequests; popleft on an empty deque raises IndexError.\<close>

definition onScheduleRequests :: "replica_world \<Rightarrow> error + replica_world" where
  "onScheduleRequests w =
     (case activeRequests (snd w) of
        [] \<Rightarrow> Inl IndexError
      | activeRequest # rest \<Rightarrow>
          (let r1 = (snd w)\<lparr>activeTimeStarted :=
                      (case activeTimeStarted (snd w) of
                         None \<Rightarrow> Some (now (fst w))
                       | Some started \<Rightarrow> Some started)\<rparr>;
               timeToExecuteActiveRequest = min (timeSlice r1) (remainingTime activeRequest);
               req = activeRequest\<lparr>remainingTime :=
                       remainingTime activeRequest - timeToExecuteActiveRequest\<rparr>
           in if remainingTime req = 0 then
                (case add timeToExecuteActiveRequest Completed (fst w) of
                   Inl err \<Rightarrow> Inl err
                 | Inr k \<Rightarrow> Inr (k, r1\<lparr>activeRequests := req # rest\<rparr>))
              else
                (case add timeToExecuteActiveRequest ScheduleRequests (fst w) of
                   Inl err \<Rightarrow> Inl err
                 | Inr k \<Rightarrow> Inr (k, r1\<lparr>activeRequests := rest @ [req]\<rparr>))))"

text \<open>
  _onCompleted; sim.now - None raises TypeError. The reply is recorded (the caller's
  reply method is not under src/ and is taken not to call back into the replica before it
  returns).
\<close>

definition onCompleted :: "replica_world \<Rightarrow> error + replica_world" where
  "onCompleted w =
     (case activeTimeStarted (snd w) of
        None \<Rightarrow> Inl TypeError
      | Some started \<Rightarrow>
          (let r1 = (snd w)\<lparr>activeTime := activeTime (snd w) + (now (fst w) - started),
                             activeTimeStarted := None\<rparr>
           in case activeRequests r1 of
                [] \<Rightarrow> Inl IndexError
              | req # rest \<Rightarrow>
                  (let done = req\<lparr>departure := Some (now (fst w))\<rparr>;
                       r2 = r1\<lparr>activeRequests := rest,
                               departed := departed r1 @ [done],
                               latestLatencies := latestLatencies r1 @ [now (fst w) - arrival done],
                               replied := replied r1 @
                                 [\<lparr>replyAt = now (fst w), replyReceiver = replyTo done,
                                   replyRequestId = requestId done,
                                   replyWithOptional = withOptional done\<rparr>]\<rparr>
                   in if activeRequests r2 \<noteq> [] then onScheduleRequests (fst w, r2)
                      else Inr (fst w, r2))))"

fun replica_handler :: "(replica_callback, Replica) handler" where
  "replica_handler ReportLoop w = runReportLoop w"
| "replica_handler ScheduleRequests w = onScheduleRequests w"
| "replica_handler Completed w = onCompleted w"

subsection \<open>Runs of a replica\<close>

text \<open>
  The states a replica and its kernel can be in: after the constructor (on a fresh kernel);
  after a call of request, made between two turns of the kernel's loop; after a turn of the
  loop that fires the earliest pending Event without an exception; and after the clock has
  advanced to a time not later than any pending Event (an Event of another component fired
  and left the replica alone).
\<close>

inductive reachable :: "generator \<Rightarrow> replica_world \<Rightarrow> bool" for normalvariate :: generator where
  start: "Replica_init slice y n name SimulatorKernel = Inr w \<Longrightarrow> reachable normalvariate w"
| arrive: "reachable normalvariate w \<Longrightarrow> request normalvariate rid rto headers w = Inr w'
    \<Longrightarrow> reachable normalvariate w'"
| turn: "reachable normalvariate w \<Longrightarrow> earliest (events (fst w)) = Some e
    \<Longrightarrow> fire replica_handler e w = Inr w' \<Longrightarrow> reachable normalvariate w'"
| elapse: "reachable normalvariate w \<Longrightarrow> now (fst w) \<le> t
    \<Longrightarrow> list_all (\<lambda>e. t \<le> fireTime e) (events (fst w))
    \<Longrightarrow> reachable normalvariate ((fst w)\<lparr>now := t\<rparr>, snd w)"

text \<open>The scheduling events of a replica: its pending dispatch and completion steps.\<close>

definition schedulingEvent :: "replica_callback event \<Rightarrow> bool" where
  "schedulingEvent e \<longleftrightarrow>
     callbackIdentity e = ScheduleRequests \<or> callbackIdentity e = Completed"

definition pendingSchedulingEvents :: "replica_world \<Rightarrow> replica_callback event list" where
  "pendingSchedulingEvents w = filter schedulingEvent (events (fst w))"

text \<open>
  The invariant of a replica and its kernel, with n pending scheduling events:
  a pending completion step means that the head request is finished and the replica is
  marked busy; remaining times are not negative and no request arrived after now; no
  pending Event is in the past; the report period is the constructor's.
\<close>

definition ginv :: "nat \<Rightarrow> replica_world \<Rightarrow> bool" where
  "ginv n w \<longleftrightarrow>
     length (pendingSchedulingEvents w) = n \<and>
     (\<forall>e \<in> set (events (fst w)). callbackIdentity e = Completed \<longrightarrow>
        activeRequests (snd w) \<noteq> [] \<and> remainingTime (hd (activeRequests (snd w))) = 0 \<and>
        activeTimeStarted (snd w) \<noteq> None) \<and>
     (\<forall>x \<in> set (activeRequests (snd w)). 0 \<le> remainingTime x \<and> arrival x \<le> now (fst w)) \<and>
     (\<forall>e \<in> set (events (fst w)). now (fst w) \<le> fireTime e) \<and>
     reportPeriod (snd w) = 1"

text \<open>Between two turns of the kernel: one scheduling event if the queue is not empty, else none.\<close>

definition replica_inv :: "replica_world \<Rightarrow> bool" where
  "replica_inv w \<longleftrightarrow> ginv (if activeRequests (snd w) = [] then 0 else 1) w"

text \<open>
  r' is the request r after some service: the same request, with a remaining time that is
  not negative and not larger.
\<close>

definition shrunk :: "request \<Rightarrow> request \<Rightarrow> bool" where
  "shrunk r r' \<longleftrightarrow>
     r' = r\<lparr>remainingTime := remainingTime r'\<rparr> \<and>
     0 \<le> remainingTime r' \<and> remainingTime r' \<le> remainingTime r"

text \<open>
  The queue q' holds the requests of the queue q after one turn of the kernel: the same
  requests in the same order, or rotated by one place (the head was preempted), possibly
  after the head, whose remaining time was 0, has been completed and removed.
\<close>

definition served :: "request list \<Rightarrow> request list \<Rightarrow> bool" where
  "served q q' \<longleftrightarrow>
     list_all2 shrunk q q' \<or> list_all2 shrunk (rotate1 q) q' \<or>
     (q \<noteq> [] \<and> remainingTime (hd q) = 0 \<and>
        (list_all2 shrunk (tl q) q' \<or> list_all2 shrunk (rotate1 (tl q)) q'))"

subsection \<open>Notions used to state and prove the replica's liveness\<close>

text \<open>
  The states a turn of the kernel goes through, written as total functions: the state when
  the Event e has been popped and the clock advanced; the state after the report loop; the
  state after the dispatch step has served the head request; the state after the completion
  step has replied to the head request (before it re-enters the dispatch step).
\<close>

definition popped :: "replica_callback event \<Rightarrow> replica_world \<Rightarrow> replica_world" where
  "popped e w = ((fst w)\<lparr>now := fireTime e, events := remove1 e (events (fst w))\<rparr>, snd w)"

















subsection \<open>A scenario: two requests at time 0\<close>

text \<open>
  A generator whose every value is the mean (what normalvariate(mu, 0) gives), and the
  scenario of the spec's work-conservation property: a replica with quantum q whose
  service-time distributions are (s1, 0) with optional content and (s2, 0) without; at
  time 0 a request with withOptional = True and then a request whose headers do not have
  the key arrive.
\<close>

definition meanGenerator :: generator where
  "meanGenerator n mu sigma = mu"

definition twoRequests :: "time \<Rightarrow> time \<Rightarrow> time \<Rightarrow> error + replica_world" where
  "twoRequests q s1 s2 =
     (case Replica_init q (s1, 0) (s2, 0) ''replica0'' SimulatorKernel of
        Inl err \<Rightarrow> Inl err
      | Inr w \<Rightarrow>
          (case request meanGenerator 1 7 [''withOptional'' \<mapsto> True] w of
             Inl err \<Rightarrow> Inl err
           | Inr w1 \<Rightarrow> request meanGenerator 2 7 Map.empty w1))"

text \<open>The scenario run until a given time; what is observed is the list of replies.\<close>

definition twoRequestsReplies :: "nat \<Rightarrow> time \<Rightarrow> time \<Rightarrow> time \<Rightarrow> time \<Rightarrow> reply list option" where
  "twoRequestsReplies fuel until q s1 s2 =
     (case twoRequests q s1 s2 of
        Inl err \<Rightarrow> None
      | Inr w \<Rightarrow>
          (case run fuel replica_handler (Some until) w of
             Some (Inr w') \<Rightarrow> Some (replied (snd w'))
           | Some (Inl err) \<Rightarrow> None
           | None \<Rightarrow> None))"

section \<open>Properties of the event kernel\<close>

lemma earliest_None_iff: "earliest es = None \<longleftrightarrow> es = []"
  by (cases es) (auto split: option.splits)

lemma earliest_mem: "earliest es = Some m \<Longrightarrow> m \<in> set es"
  by (induction es arbitrary: m) (auto split: option.splits if_splits)

lemma earliest_le: "earliest es = Some m \<Longrightarrow> e \<in> set es \<Longrightarrow> fireTime m \<le> fireTime e"
proof (induction es arbitrary: m e)
  case Nil
  then show ?case by simp
next
  case (Cons x xs)
  show ?case
  proof (cases "earliest xs")
    case None
    then have "xs = []" by (simp add: earliest_None_iff)
    with Cons.prems None show ?thesis by simp
  next
    case (Some m')
    with Cons.prems have m: "m = (if fires_before x m' then x else m')"
      by (auto split: if_splits)
    have le: "\<And>y. y \<in> set xs \<Longrightarrow> fireTime m' \<le> fireTime y"
      using Cons.IH [OF Some] by simp
    from Cons.prems(2) have "e = x \<or> e \<in> set xs" by simp
    then show ?thesis
    proof
      assume "e = x"
      with m show ?thesis by (auto simp: fires_before_def)
    next
      assume "e \<in> set xs"
      from le [OF this] m show ?thesis by (auto simp: fires_before_def)
    qed
  qed
qed

lemma run_loop_pending_after:
  "run_loop n h (Some u) w = Some (Inr w') \<Longrightarrow> e \<in> set (events (fst w')) \<Longrightarrow> u < fireTime e"
proof (induction n arbitrary: w)
  case 0
  then show ?case by simp
next
  case (Suc n)
  show ?case
  proof (cases "earliest (events (fst w))")
    case None
    with Suc.prems have "w' = w" by simp
    with None Suc.prems(2) show ?thesis by (simp add: earliest_None_iff)
  next
    case (Some m)
    show ?thesis
    proof (cases "u < fireTime m")
      case True
      with Some Suc.prems have "w' = w" by simp
      with Suc.prems(2) have "fireTime m \<le> fireTime e" using earliest_le [OF Some] by simp
      with True show ?thesis by simp
    next
      case False
      with Some Suc.prems(1) obtain w1 where "fire h m w = Inr w1" "run_loop n h (Some u) w1 = Some (Inr w')"
        by (auto split: sum.splits)
      from Suc.IH [OF this(2) Suc.prems(2)] show ?thesis .
    qed
  qed
qed

lemma run_loop_more_fuel:
  "run_loop n h u w = Some r \<Longrightarrow> run_loop (n + m) h u w = Some r"
proof (induction n arbitrary: w)
  case 0
  then show ?case by simp
next
  case (Suc n)
  then show ?case by (auto split: option.splits sum.splits if_splits)
qed

lemma run_loop_fuel_le:
  "run_loop n h u w = Some r \<Longrightarrow> n \<le> n' \<Longrightarrow> run_loop n' h u w = Some r"
  using run_loop_more_fuel [of n h u w r "n' - n"] by simp

lemma update_ok:
  "0 \<le> delay \<Longrightarrow> update delay what k =
     Inr (k\<lparr>events := filter (\<lambda>e. callbackIdentity e \<noteq> what) (events k) @
                   [\<lparr>fireTime = now k + delay,
                     sequenceNumber = nextSequenceNumber k,
                     callbackIdentity = what\<rparr>],
                 nextSequenceNumber := Suc (nextSequenceNumber k)\<rparr>)"
  by (simp add: update_def add_def)

text \<open>
  C2. For every callback identity, update(delay, callback) cancels the pending Events of
  that identity and schedules a new one: afterwards exactly one Event of that identity is
  pending, the one just scheduled (at now + delay), and the Events of other identities are
  untouched. In particular test_update_event (add at delay 0, then update to delay 100, then
  run) records exactly one firing, at virtual time 100, whenever the run is given the two
  turns of the loop it needs.
\<close>

theorem update_replaces_pending:
  assumes "0 \<le> delay" and "2 \<le> fuel"
  shows "(\<exists>k'. update delay what k = Inr k' \<and>
            filter (\<lambda>e. callbackIdentity e = what) (events k') =
              [\<lparr>fireTime = now k + delay, sequenceNumber = nextSequenceNumber k,
                callbackIdentity = what\<rparr>] \<and>
            filter (\<lambda>e. callbackIdentity e \<noteq> what) (events k') =
              filter (\<lambda>e. callbackIdentity e \<noteq> what) (events k)) \<and>
         map_option (map_sum id snd) (test_update_event fuel) = Some (Inr [100])"
proof -
  have a: "\<exists>k'. update delay what k = Inr k' \<and>
            filter (\<lambda>e. callbackIdentity e = what) (events k') =
              [\<lparr>fireTime = now k + delay, sequenceNumber = nextSequenceNumber k,
                callbackIdentity = what\<rparr>] \<and>
            filter (\<lambda>e. callbackIdentity e \<noteq> what) (events k') =
              filter (\<lambda>e. callbackIdentity e \<noteq> what) (events k)"
    using assms(1) by (simp add: update_ok)
  define K :: "test_callback EventKernel" where
    "K = \<lparr>now = 0, events = [\<lparr>fireTime = 100, sequenceNumber = Suc 0, callbackIdentity = ToRun\<rparr>],
         nextSequenceNumber = Suc (Suc 0)\<rparr>"
  define R :: "(test_callback, time list) world" where
    "R = (\<lparr>now = 100, events = [], nextSequenceNumber = 2\<rparr>, [100])"
  have eq: "test_update_event n = run_loop n test_handler None (K, [])" for n
    by (simp add: test_update_event_def add_def update_def SimulatorKernel_def run_def K_def)
  have "test_update_event 2 = Some (Inr R)"
    unfolding R_def by code_simp
  then have "run_loop 2 test_handler None (K, []) = Some (Inr R)"
    by (simp only: eq)
  from run_loop_fuel_le [OF this assms(2)]
  have "test_update_event fuel = Some (Inr R)"
    by (simp only: eq)
  then show ?thesis using a by (simp add: R_def)
qed


theorem update_replaces_pending_witness:
  "(0::rat) \<le> 100 \<and> (2::nat) \<le> 2 \<and>
   (\<exists>k'. update 100 ToRun
           \<lparr>now = 0, events = [\<lparr>fireTime = 0, sequenceNumber = 0, callbackIdentity = ToRun\<rparr>],
             nextSequenceNumber = 1\<rparr> = Inr k' \<and>
         events k' = [\<lparr>fireTime = 100, sequenceNumber = 1, callbackIdentity = ToRun\<rparr>]) \<and>
   map_option (map_sum id snd) (test_update_event 2) = Some (Inr [100])"
  using update_replaces_pending [of 100 2 ToRun
      "\<lparr>now = 0, events = [\<lparr>fireTime = 0, sequenceNumber = 0, callbackIdentity = ToRun\<rparr>],
         nextSequenceNumber = 1\<rparr>"]
  by (simp add: update_ok)

text \<open>
  C3. run(until) has an inclusive upper bound: a turn of the loop whose next Event has
  fireTime <= until fires it, and when run(until) returns, every Event still pending has a
  fireTime greater than until (so every Event due at or before until, also one scheduled
  during the run, has been executed). Hence test_run_until (a periodic action re-arming
  itself every 100 time units, run with until = 1000) records exactly 11 firings, at
  0, 100, ..., 1000, whenever the run is given the 11 turns of the loop it needs.
\<close>

theorem run_until_inclusive:
  assumes "run fuel h (Some until) w = Some (Inr w')" and "11 \<le> fuel'"
  shows "(\<forall>e \<in> set (events (fst w')). until < fireTime e) \<and>
         (\<forall>n e. earliest (events (fst w)) = Some e \<and> fireTime e \<le> until \<longrightarrow>
            run_loop (Suc n) h (Some until) w =
              (case fire h e w of Inl err \<Rightarrow> Some (Inl err)
               | Inr w1 \<Rightarrow> run_loop n h (Some until) w1)) \<and>
         map_option (map_sum id snd) (test_run_until fuel') =
           Some (Inr [0, 100, 200, 300, 400, 500, 600, 700, 800, 900, 1000])"
proof -
  from assms(1) have loop: "run_loop fuel h (Some until) w = Some (Inr w')"
    by (simp add: run_def split: if_splits)
  have a: "\<forall>e \<in> set (events (fst w')). until < fireTime e"
    using run_loop_pending_after [OF loop] by blast
  have b: "\<forall>n e. earliest (events (fst w)) = Some e \<and> fireTime e \<le> until \<longrightarrow>
            run_loop (Suc n) h (Some until) w =
              (case fire h e w of Inl err \<Rightarrow> Some (Inl err)
               | Inr w1 \<Rightarrow> run_loop n h (Some until) w1)"
    by auto
  define K :: "test_callback EventKernel" where
    "K = \<lparr>now = 0, events = [\<lparr>fireTime = 100, sequenceNumber = 0,
            callbackIdentity = RunPeriodically 100\<rparr>], nextSequenceNumber = Suc 0\<rparr>"
  define R :: "(test_callback, time list) world" where
    "R = (\<lparr>now = 1000, events = [\<lparr>fireTime = 1100, sequenceNumber = 10,
            callbackIdentity = RunPeriodically 100\<rparr>], nextSequenceNumber = 11\<rparr>,
          [0, 100, 200, 300, 400, 500, 600, 700, 800, 900, 1000])"
  have eq: "test_run_until n = run_loop n test_handler (Some 1000) (K, [0])" for n
    by (simp add: test_run_until_def runPeriodically_def assertShouldRunPeriodically_def
        py_mod_def add_def SimulatorKernel_def run_def K_def)
  have "test_run_until 11 = Some (Inr R)"
    unfolding R_def by code_simp
  then have "run_loop 11 test_handler (Some 1000) (K, [0]) = Some (Inr R)"
    by (simp only: eq)
  from run_loop_fuel_le [OF this assms(2)]
  have "test_run_until fuel' = Some (Inr R)"
    by (simp only: eq)
  then show ?thesis using a b by (simp add: R_def)
qed

theorem run_until_inclusive_witness:
  "run 2 test_handler (Some 100)
      (\<lparr>now = 0, events = [\<lparr>fireTime = 100, sequenceNumber = 0,
           callbackIdentity = RunPeriodically 100\<rparr>], nextSequenceNumber = 1\<rparr>, [0]) =
     Some (Inr (\<lparr>now = 100, events = [\<lparr>fireTime = 200, sequenceNumber = 1,
           callbackIdentity = RunPeriodically 100\<rparr>], nextSequenceNumber = 2\<rparr>, [0, 100])) \<and>
   (11::nat) \<le> 11 \<and>
   list_all (\<lambda>e. 100 < fireTime e)
     [\<lparr>fireTime = 200, sequenceNumber = 1, callbackIdentity = RunPeriodically 100\<rparr>] \<and>
   map_option (map_sum id snd) (test_run_until 11) =
     Some (Inr [0, 100, 200, 300, 400, 500, 600, 700, 800, 900, 1000])"
proof -
  have r: "run 2 test_handler (Some 100)
      (\<lparr>now = 0, events = [\<lparr>fireTime = 100, sequenceNumber = 0,
           callbackIdentity = RunPeriodically 100\<rparr>], nextSequenceNumber = 1\<rparr>, [0]) =
     Some (Inr (\<lparr>now = 100, events = [\<lparr>fireTime = 200, sequenceNumber = 1,
           callbackIdentity = RunPeriodically 100\<rparr>], nextSequenceNumber = 2\<rparr>, [0, 100]))"
    by code_simp
  have f: "(11::nat) \<le> 11" by simp
  from run_until_inclusive [OF r f] r show ?thesis by simp
qed

section \<open>Properties of the auto-scaler\<close>

lemma count_status_total:
  "length (filter (\<lambda>i. f i = STOPPED) xs) + length (filter (\<lambda>i. f i = STARTING) xs) +
   length (filter (\<lambda>i. f i = STARTED) xs) + length (filter (\<lambda>i. f i = STOPPING) xs) = length xs"
proof (induction xs)
  case Nil
  then show ?case by simp
next
  case (Cons x xs)
  then show ?case by (cases "f x") simp_all
qed

lemma getStatus_ok:
  "getStatus a = Inr (\<lambda>s. length (backendsWithStatus s (backends a)))"
proof -
  have "length (backends a) = length (backendsWithStatus STARTING (backends a)) +
      length (backendsWithStatus STARTED (backends a)) +
      length (backendsWithStatus STOPPED (backends a)) +
      length (backendsWithStatus STOPPING (backends a))"
    using count_status_total [of "\<lambda>i. autoScaleStatus (backends a ! i)" "[0..<length (backends a)]"]
    by (simp add: backendsWithStatus_def)
  moreover have "(\<lambda>s. case s of STOPPED \<Rightarrow> length (backendsWithStatus STOPPED (backends a))
        | STARTING \<Rightarrow> length (backendsWithStatus STARTING (backends a))
        | STARTED \<Rightarrow> length (backendsWithStatus STARTED (backends a))
        | STOPPING \<Rightarrow> length (backendsWithStatus STOPPING (backends a))) =
      (\<lambda>s. length (backendsWithStatus s (backends a)))"
    by (rule ext) (simp split: BackendStatus.splits)
  ultimately show ?thesis
    by (simp add: getStatus_def Let_def)
qed

lemma filter_upt_first:
  assumes "i < n" and "P i" and "\<forall>j<i. \<not> P j"
  shows "filter P [0..<n] = i # filter P [Suc i..<n]"
proof -
  have "[0..<n] = [0..<i] @ i # [Suc i..<n]"
    using assms(1) by (metis less_imp_le_nat upt_add_eq_append upt_conv_Cons plus_nat.add_0 le0 le_add_diff_inverse)
  moreover have "filter P [0..<i] = []"
    using assms(3) by (simp add: filter_empty_conv)
  ultimately show ?thesis using assms(2) by simp
qed

lemma filter_upt_last:
  assumes "i < n" and "P i" and "\<forall>j. i < j \<and> j < n \<longrightarrow> \<not> P j"
  shows "rev (filter P [0..<n]) = i # rev (filter P [0..<i])"
proof -
  have "[0..<n] = [0..<i] @ i # [Suc i..<n]"
    using assms(1) by (metis less_imp_le_nat upt_add_eq_append upt_conv_Cons plus_nat.add_0 le0 le_add_diff_inverse)
  moreover have "filter P [Suc i..<n] = []"
    using assms(3) by (auto simp: filter_empty_conv)
  ultimately show ?thesis using assms(2) by simp
qed

lemma scaleBy_zero: "scaleBy (Suc f) c (PyInt 0) w = Some (Return w)"
  by (simp add: py_eq_def)

lemma scaleUp_unresponsive:
  assumes "unresponsive c"
  shows "scaleUp (Suc (Suc f)) c w =
     (case backendsWithStatus STOPPED (backends (snd w)) of
        [] \<Rightarrow> Some (Raise (RuntimeError
                 ''AutoScaler was asked to scale up, but no backends are available.'') w)
      | i # _ \<Rightarrow>
          (let a3 = (snd w)\<lparr>logged := logged (snd w) @ [(backendName (backends (snd w) ! i), ''STARTING'')],
                     backends := setStatus i STARTING (backends (snd w)),
                     delayCalls := (case startupDelay c of FixedDelay d \<Rightarrow> delayCalls (snd w)
                                    | CallableDelay g \<Rightarrow> Suc (delayCalls (snd w)))\<rparr>
           in case add (nextStartupDelay c (snd w)) (StartupCompleted i) (fst w) of
                Inl err \<Rightarrow> Some (Raise err (fst w, a3))
              | Inr k \<Rightarrow> Some (Return (k, a3))))"
  using assms
  by (simp add: unresponsive_def getStatus_ok Let_def nextStartupDelay_def py_eq_def
      split: list.splits sum.splits delay_source.splits)

lemma scaleDown_unresponsive:
  assumes "unresponsive c"
  shows "scaleDown (Suc (Suc f)) c w =
     (case rev (backendsWithStatus STARTED (backends (snd w))) of
        [] \<Rightarrow> Some (Raise (RuntimeError
                 ''AutoScaler was asked to scale down, but no backends are started.'') w)
      | i # _ \<Rightarrow>
          Some (Return (fst w, (snd w)\<lparr>logged := logged (snd w) @ [(backendName (backends (snd w) ! i), ''STOPPING'')],
                     backends := setStatus i STOPPING (backends (snd w)),
                     lbBackends := removeAll i (lbBackends (snd w)),
                     lbDraining := lbDraining (snd w) @ [i]\<rparr>)))"
  using assms
  by (simp add: unresponsive_def getStatus_ok Let_def py_eq_def
      split: list.splits sum.splits)


lemma firstWithStatus_hd:
  assumes "firstWithStatus s bs i"
  shows "backendsWithStatus s bs = i # filter (\<lambda>k. autoScaleStatus (bs ! k) = s) [Suc i..<length bs]"
proof -
  from assms have i: "i < length bs" and si: "autoScaleStatus (bs ! i) = s"
    and no: "s \<notin> set (map autoScaleStatus (take i bs))"
    by (simp_all add: firstWithStatus_def)
  have "\<forall>j<i. \<not> autoScaleStatus (bs ! j) = s"
  proof (intro allI impI notI)
    fix j assume "j < i" and "autoScaleStatus (bs ! j) = s"
    with i have "take i bs ! j = bs ! j" "j < length (take i bs)" by simp_all
    then have "bs ! j \<in> set (take i bs)" by (metis nth_mem)
    with \<open>autoScaleStatus (bs ! j) = s\<close> no show False by force
  qed
  with i si show ?thesis
    unfolding backendsWithStatus_def
    by (intro filter_upt_first) simp_all
qed

lemma lastWithStatus_hd:
  assumes "lastWithStatus s bs i"
  shows "rev (backendsWithStatus s bs) = i # rev (filter (\<lambda>k. autoScaleStatus (bs ! k) = s) [0..<i])"
proof -
  from assms have i: "i < length bs" and si: "autoScaleStatus (bs ! i) = s"
    and no: "s \<notin> set (map autoScaleStatus (drop (Suc i) bs))"
    by (simp_all add: lastWithStatus_def)
  have "\<forall>j. i < j \<and> j < length bs \<longrightarrow> \<not> autoScaleStatus (bs ! j) = s"
  proof (intro allI impI notI)
    fix j assume j: "i < j \<and> j < length bs" and "autoScaleStatus (bs ! j) = s"
    then have "drop (Suc i) bs ! (j - Suc i) = bs ! j" "j - Suc i < length (drop (Suc i) bs)"
      by auto
    then have "bs ! j \<in> set (drop (Suc i) bs)" by (metis nth_mem)
    with \<open>autoScaleStatus (bs ! j) = s\<close> no show False by force
  qed
  with i si show ?thesis
    unfolding backendsWithStatus_def
    by (intro filter_upt_last) simp_all
qed

lemma no_status_empty:
  assumes "s \<notin> set (map autoScaleStatus bs)"
  shows "backendsWithStatus s bs = []"
  using assms by (auto simp: backendsWithStatus_def filter_empty_conv)

lemma scaleUp_none_stopped:
  assumes "STOPPED \<notin> set (map autoScaleStatus (backends (snd w)))"
  shows "scaleUp (Suc f) c w = Some (Raise (RuntimeError
           ''AutoScaler was asked to scale up, but no backends are available.'') w)"
  using no_status_empty [OF assms] by simp

lemma scaleDown_none_started:
  assumes "STARTED \<notin> set (map autoScaleStatus (backends (snd w)))"
  shows "scaleDown (Suc f) c w = Some (Raise (RuntimeError
           ''AutoScaler was asked to scale down, but no backends are started.'') w)"
  using no_status_empty [OF assms] by simp

lemma scaleUp_first:
  assumes "unresponsive c" and "firstWithStatus STOPPED (backends (snd w)) i"
    and "0 \<le> nextStartupDelay c (snd w)"
  shows "\<exists>w'. scaleUp (Suc (Suc f)) c w = Some (Return w') \<and>
           backends (snd w') = setStatus i STARTING (backends (snd w)) \<and>
           logged (snd w') = logged (snd w) @ [(backendName (backends (snd w) ! i), ''STARTING'')] \<and>
           events (fst w') = events (fst w) @
             [\<lparr>fireTime = now (fst w) + nextStartupDelay c (snd w),
               sequenceNumber = nextSequenceNumber (fst w),
               callbackIdentity = StartupCompleted i\<rparr>]"
  using assms(3)
  by (subst scaleUp_unresponsive [OF assms(1)])
     (simp add: firstWithStatus_hd [OF assms(2)] add_def Let_def del: scaleUp.simps)

lemma scaleDown_last:
  assumes "unresponsive c" and "lastWithStatus STARTED (backends (snd w)) i"
  shows "\<exists>w'. scaleDown (Suc (Suc f)) c w = Some (Return w') \<and>
           backends (snd w') = setStatus i STOPPING (backends (snd w)) \<and>
           logged (snd w') = logged (snd w) @ [(backendName (backends (snd w) ! i), ''STOPPING'')] \<and>
           lbDraining (snd w') = lbDraining (snd w) @ [i] \<and>
           i \<notin> set (lbBackends (snd w'))"
  by (subst scaleDown_unresponsive [OF assms(1)])
     (simp add: lastWithStatus_hd [OF assms(2)] del: scaleDown.simps)


lemma scaleUp_fuel: "unresponsive c \<Longrightarrow> scaleUp (Suc (Suc f)) c w = scaleUp 2 c w"
  using scaleUp_unresponsive [of c f w] scaleUp_unresponsive [of c 0 w]
  by (simp only: numeral_2_eq_2)

lemma scaleDown_fuel: "unresponsive c \<Longrightarrow> scaleDown (Suc (Suc f)) c w = scaleDown 2 c w"
  using scaleDown_unresponsive [of c f w] scaleDown_unresponsive [of c 0 w]
  by (simp only: numeral_2_eq_2)

lemma scaleBy_up_loop:
  assumes "unresponsive c"
  shows "scaleBy_up (Suc (Suc (n + f))) c (PyInt (int n)) w = repeat_calls n (scaleUp 2 c) w"
proof (induction n arbitrary: w)
  case 0
  show ?case by (simp add: py_gt_def py_lt_def)
next
  case (Suc n)
  have up: "scaleUp (Suc (Suc (n + f))) c w = scaleUp 2 c w"
    by (rule scaleUp_fuel [OF assms])
  have "scaleBy_up (Suc (Suc (Suc n + f))) c (PyInt (int (Suc n))) w =
      (case scaleUp 2 c w of None \<Rightarrow> None
       | Some (Raise err w') \<Rightarrow> Some (Raise err w')
       | Some (Return w') \<Rightarrow> scaleBy_up (Suc (Suc (n + f))) c (PyInt (int n)) w')"
    apply (subst scaleBy_up.simps)
    apply (simp only: add_Suc up)
    apply (simp add: py_gt_def py_add_def del: scaleBy_up.simps scaleUp.simps
        split: option.splits outcome.splits)
    done
  then show ?case
    by (simp add: Suc.IH del: scaleBy_up.simps scaleUp.simps split: option.splits outcome.splits)
qed

lemma scaleBy_down_loop:
  assumes "unresponsive c"
  shows "scaleBy_down (Suc (Suc (n + f))) c (PyInt (- int n)) w = repeat_calls n (scaleDown 2 c) w"
proof (induction n arbitrary: w)
  case 0
  show ?case by (simp add: py_gt_def py_lt_def)
next
  case (Suc n)
  have down: "scaleDown (Suc (Suc (n + f))) c w = scaleDown 2 c w"
    by (rule scaleDown_fuel [OF assms])
  have "scaleBy_down (Suc (Suc (Suc n + f))) c (PyInt (- int (Suc n))) w =
      (case scaleDown 2 c w of None \<Rightarrow> None
       | Some (Raise err w') \<Rightarrow> Some (Raise err w')
       | Some (Return w') \<Rightarrow> scaleBy_down (Suc (Suc (n + f))) c (PyInt (- int n)) w')"
    apply (subst scaleBy_down.simps)
    apply (simp only: add_Suc down)
    apply (simp add: py_lt_def py_add_def del: scaleBy_down.simps scaleDown.simps
        split: option.splits outcome.splits)
    done
  then show ?case
    by (simp add: Suc.IH del: scaleBy_down.simps scaleDown.simps split: option.splits outcome.splits)
qed

lemma scaleBy_int:
  assumes "unresponsive c" and "nat \<bar>n\<bar> + 4 \<le> fuel"
  shows "scaleBy fuel c (PyInt n) w =
     (if 0 < n then repeat_calls (nat n) (scaleUp 2 c) w
      else repeat_calls (nat (- n)) (scaleDown 2 c) w)"
proof -
  from assms(2) obtain f where "fuel = nat \<bar>n\<bar> + 4 + f"
    by (auto simp: le_iff_add)
  then have fuel: "fuel = Suc (Suc (Suc (Suc (nat \<bar>n\<bar> + f))))"
    by simp
  show ?thesis
  proof (cases "0 < n")
    case True
    then have n: "n = int (nat n)" "nat \<bar>n\<bar> = nat n" by simp_all
    have "scaleBy fuel c (PyInt n) w = scaleBy_up (Suc (Suc (nat n + Suc f))) c (PyInt (int (nat n))) w"
      using True by (simp add: fuel py_eq_def n(2) del: scaleBy_up.simps)
    with True show ?thesis by (simp only: scaleBy_up_loop [OF assms(1)] if_True)
  next
    case False
    then have n: "n = - int (nat (- n))" "nat \<bar>n\<bar> = nat (- n)" by simp_all
    show ?thesis
    proof (cases "n = 0")
      case True
      then show ?thesis by (simp add: fuel py_eq_def)
    next
      case nz: False
      have "scaleBy fuel c (PyInt n) w = scaleBy_down (Suc (Suc (nat (- n) + f))) c (PyInt n) w"
        using False nz by (simp add: fuel py_eq_def py_gt_def n(2) del: scaleBy_down.simps)
      also have "\<dots> = scaleBy_down (Suc (Suc (nat (- n) + f))) c (PyInt (- int (nat (- n)))) w"
        using n(1) by simp
      finally show ?thesis using False by (simp only: scaleBy_down_loop [OF assms(1)] if_False)
    qed
  qed
qed

lemma scaleBy_nan: "3 \<le> fuel \<Longrightarrow> scaleBy fuel c PyNaN w = Some (Return w)"
proof -
  assume "3 \<le> fuel"
  then obtain f where "fuel = 3 + f"
    by (auto simp: le_iff_add)
  then have "fuel = Suc (Suc (Suc f))"
    by simp
  then show ?thesis by (simp add: py_eq_def py_gt_def py_lt_def)
qed

lemma returned_not_None: "returned r \<noteq> None \<Longrightarrow> \<exists>w. r = Some (Return w)"
  by (simp add: returned_def split: option.splits outcome.splits)

lemma repeat_calls_total:
  assumes "\<And>w. f w \<noteq> None"
  shows "repeat_calls n f w \<noteq> None"
proof (induction n arbitrary: w)
  case 0
  show ?case by simp
next
  case (Suc n)
  then show ?case using assms [of w] by (auto split: option.splits outcome.splits)
qed

lemma scaleUp_2_total: "unresponsive c \<Longrightarrow> scaleUp 2 c w \<noteq> None"
  using scaleUp_unresponsive [of c 0 w]
  by (simp add: numeral_2_eq_2 Let_def del: scaleUp.simps split: list.splits sum.splits)

lemma scaleDown_2_total: "unresponsive c \<Longrightarrow> scaleDown 2 c w \<noteq> None"
  using scaleDown_unresponsive [of c 0 w]
  by (simp add: numeral_2_eq_2 Let_def del: scaleDown.simps split: list.splits sum.splits)

lemma backendsWithStatus_length:
  "length (backendsWithStatus s bs) = length (filter (\<lambda>b. autoScaleStatus b = s) bs)"
proof -
  have "filter (\<lambda>b. autoScaleStatus b = s) (map ((!) bs) [0..<length bs]) =
      map ((!) bs) (filter (\<lambda>i. autoScaleStatus (bs ! i) = s) [0..<length bs])"
    by (simp add: filter_map comp_def)
  then have "length (filter (\<lambda>b. autoScaleStatus b = s) (map ((!) bs) [0..<length bs])) =
      length (backendsWithStatus s bs)"
    by (simp add: backendsWithStatus_def)
  then show ?thesis by (simp add: map_nth)
qed

lemma length_filter_update:
  "i < length xs \<Longrightarrow>
   length (filter P (xs[i := y])) + (if P (xs ! i) then 1 else 0) =
   length (filter P xs) + (if P y then 1 else 0)"
proof (induction xs arbitrary: i)
  case Nil
  then show ?case by simp
next
  case (Cons x xs)
  then show ?case by (cases i) auto
qed

lemma count_setStatus:
  assumes "i < length bs"
  shows "int (length (backendsWithStatus s (setStatus i s' bs))) =
     int (length (backendsWithStatus s bs)) - (if autoScaleStatus (bs ! i) = s then 1 else 0) +
       (if s' = s then 1 else 0)"
  using length_filter_update [OF assms, of "\<lambda>b. autoScaleStatus b = s" "(bs ! i)\<lparr>autoScaleStatus := s'\<rparr>"]
  by (simp add: backendsWithStatus_length setStatus_def split: if_splits)

lemma backendsWithStatus_hd:
  assumes "backendsWithStatus s bs = i # rest"
  shows "i < length bs \<and> autoScaleStatus (bs ! i) = s"
proof -
  have "i \<in> set (backendsWithStatus s bs)" using assms by simp
  then show ?thesis by (simp add: backendsWithStatus_def)
qed

lemma backendsWithStatus_last:
  assumes "rev (backendsWithStatus s bs) = i # rest"
  shows "i < length bs \<and> autoScaleStatus (bs ! i) = s"
proof -
  have "i \<in> set (rev (backendsWithStatus s bs))" using assms by simp
  then show ?thesis by (simp add: backendsWithStatus_def)
qed

lemma scaleUp_willBeStarted:
  assumes "unresponsive c" and "scaleUp 2 c w = Some (Return w')"
  shows "willBeStarted (snd w') = willBeStarted (snd w) + 1"
proof -
  from assms(2) have eq: "scaleUp (Suc (Suc 0)) c w = Some (Return w')"
    by (simp only: numeral_2_eq_2)
  from eq obtain i rest where hd: "backendsWithStatus STOPPED (backends (snd w)) = i # rest"
    and bs: "backends (snd w') = setStatus i STARTING (backends (snd w))"
    unfolding scaleUp_unresponsive [OF assms(1)]
    by (auto simp: Let_def split: list.splits sum.splits)
  from backendsWithStatus_hd [OF hd] show ?thesis
    by (simp add: willBeStarted_def bs count_setStatus)
qed

lemma scaleDown_willBeStarted:
  assumes "unresponsive c" and "scaleDown 2 c w = Some (Return w')"
  shows "willBeStarted (snd w') = willBeStarted (snd w) - 1"
proof -
  from assms(2) have eq: "scaleDown (Suc (Suc 0)) c w = Some (Return w')"
    by (simp only: numeral_2_eq_2)
  from eq obtain i rest where hd: "rev (backendsWithStatus STARTED (backends (snd w))) = i # rest"
    and bs: "backends (snd w') = setStatus i STOPPING (backends (snd w))"
    unfolding scaleDown_unresponsive [OF assms(1)]
    by (auto simp: Let_def split: list.splits sum.splits)
  from backendsWithStatus_last [OF hd] show ?thesis
    by (simp add: willBeStarted_def bs count_setStatus)
qed

lemma repeat_scaleUp_willBeStarted:
  assumes "unresponsive c"
  shows "repeat_calls n (scaleUp 2 c) w = Some (Return w') \<Longrightarrow>
         willBeStarted (snd w') = willBeStarted (snd w) + int n"
proof (induction n arbitrary: w)
  case 0
  then show ?case by simp
next
  case (Suc n)
  from Suc.prems obtain w1 where 1: "scaleUp 2 c w = Some (Return w1)"
    and 2: "repeat_calls n (scaleUp 2 c) w1 = Some (Return w')"
    by (auto simp del: scaleUp.simps split: option.splits outcome.splits)
  from Suc.IH [OF 2] scaleUp_willBeStarted [OF assms 1] show ?case by simp
qed

lemma repeat_scaleDown_willBeStarted:
  assumes "unresponsive c"
  shows "repeat_calls n (scaleDown 2 c) w = Some (Return w') \<Longrightarrow>
         willBeStarted (snd w') = willBeStarted (snd w) - int n"
proof (induction n arbitrary: w)
  case 0
  then show ?case by simp
next
  case (Suc n)
  from Suc.prems obtain w1 where 1: "scaleDown 2 c w = Some (Return w1)"
    and 2: "repeat_calls n (scaleDown 2 c) w1 = Some (Return w')"
    by (auto simp del: scaleDown.simps split: option.splits outcome.splits)
  from Suc.IH [OF 2] scaleDown_willBeStarted [OF assms 1] show ?case by simp
qed

lemma scaleTo_loop_step:
  "scaleTo_loop (Suc f) c (PyInt t) w =
     (if willBeStarted (snd w) < t then
        (case scaleUp f c w of None \<Rightarrow> None
         | Some (Raise err w') \<Rightarrow> Some (Raise err w')
         | Some (Return w') \<Rightarrow> scaleTo_loop f c (PyInt t) w')
      else if t < willBeStarted (snd w) then
        (case scaleDown f c w of None \<Rightarrow> None
         | Some (Raise err w') \<Rightarrow> Some (Raise err w')
         | Some (Return w') \<Rightarrow> scaleTo_loop f c (PyInt t) w')
      else Some (Return w))"
  by (simp add: getStatus_ok willBeStarted_def py_gt_def py_lt_def Let_def
      del: scaleUp.simps scaleDown.simps)

lemma scaleTo_loop_up:
  assumes "unresponsive c"
  shows "willBeStarted (snd w) + int n = t \<Longrightarrow>
         scaleTo_loop (Suc (Suc (Suc (n + f)))) c (PyInt t) w = repeat_calls n (scaleUp 2 c) w"
proof (induction n arbitrary: w)
  case 0
  then show ?case by (simp add: scaleTo_loop_step del: scaleTo_loop.simps)
next
  case (Suc n)
  have up: "scaleUp (Suc (Suc (Suc (n + f)))) c w = scaleUp 2 c w"
    by (rule scaleUp_fuel [OF assms])
  from Suc.prems have lt: "willBeStarted (snd w) < t" by simp
  have step: "scaleTo_loop (Suc (Suc (Suc (Suc n + f)))) c (PyInt t) w =
      (case scaleUp 2 c w of None \<Rightarrow> None
       | Some (Raise err w') \<Rightarrow> Some (Raise err w')
       | Some (Return w') \<Rightarrow> scaleTo_loop (Suc (Suc (Suc (n + f)))) c (PyInt t) w')"
    apply (simp only: add_Suc)
    apply (subst scaleTo_loop_step)
    apply (simp only: up lt if_True)
    done
  show ?case
  proof (cases "scaleUp 2 c w")
    case None
    with step show ?thesis by (simp del: scaleTo_loop.simps scaleUp.simps)
  next
    case (Some r)
    show ?thesis
    proof (cases r)
      case (Raise err w')
      with Some step show ?thesis by (simp del: scaleTo_loop.simps scaleUp.simps)
    next
      case (Return w')
      with Some have "willBeStarted (snd w') = willBeStarted (snd w) + 1"
        using scaleUp_willBeStarted [OF assms] by simp
      with Suc.prems have "willBeStarted (snd w') + int n = t" by simp
      from Suc.IH [OF this] Some Return step show ?thesis
        by (simp del: scaleTo_loop.simps scaleUp.simps)
    qed
  qed
qed

lemma scaleTo_loop_down:
  assumes "unresponsive c"
  shows "willBeStarted (snd w) - int n = t \<Longrightarrow>
         scaleTo_loop (Suc (Suc (Suc (n + f)))) c (PyInt t) w = repeat_calls n (scaleDown 2 c) w"
proof (induction n arbitrary: w)
  case 0
  then show ?case by (simp add: scaleTo_loop_step del: scaleTo_loop.simps)
next
  case (Suc n)
  have down: "scaleDown (Suc (Suc (Suc (n + f)))) c w = scaleDown 2 c w"
    by (rule scaleDown_fuel [OF assms])
  from Suc.prems have lt: "t < willBeStarted (snd w)" "\<not> willBeStarted (snd w) < t" by simp_all
  have step: "scaleTo_loop (Suc (Suc (Suc (Suc n + f)))) c (PyInt t) w =
      (case scaleDown 2 c w of None \<Rightarrow> None
       | Some (Raise err w') \<Rightarrow> Some (Raise err w')
       | Some (Return w') \<Rightarrow> scaleTo_loop (Suc (Suc (Suc (n + f)))) c (PyInt t) w')"
    apply (simp only: add_Suc)
    apply (subst scaleTo_loop_step)
    apply (simp only: down lt if_True if_False)
    done
  show ?case
  proof (cases "scaleDown 2 c w")
    case None
    with step show ?thesis by (simp del: scaleTo_loop.simps scaleDown.simps)
  next
    case (Some r)
    show ?thesis
    proof (cases r)
      case (Raise err w')
      with Some step show ?thesis by (simp del: scaleTo_loop.simps scaleDown.simps)
    next
      case (Return w')
      with Some have "willBeStarted (snd w') = willBeStarted (snd w) - 1"
        using scaleDown_willBeStarted [OF assms] by simp
      with Suc.prems have "willBeStarted (snd w') - int n = t" by simp
      from Suc.IH [OF this] Some Return step show ?thesis
        by (simp del: scaleTo_loop.simps scaleDown.simps)
    qed
  qed
qed

lemma scaleTo_int:
  assumes "unresponsive c" and "0 \<le> t" and "nat \<bar>t - willBeStarted (snd w)\<bar> + 3 \<le> fuel"
  shows "scaleTo fuel c (PyInt t) w =
     (if willBeStarted (snd w) \<le> t
      then repeat_calls (nat (t - willBeStarted (snd w))) (scaleUp 2 c) w
      else repeat_calls (nat (willBeStarted (snd w) - t)) (scaleDown 2 c) w)"
proof -
  from assms(3) obtain f where "fuel = nat \<bar>t - willBeStarted (snd w)\<bar> + 3 + f"
    by (auto simp: le_iff_add)
  then have fuel: "fuel = Suc (Suc (Suc (nat \<bar>t - willBeStarted (snd w)\<bar> + f)))"
    by simp
  have st: "scaleTo fuel c (PyInt t) w = scaleTo_loop fuel c (PyInt t) w"
    using assms(2) by (simp add: scaleTo_def py_lt_def)
  show ?thesis
  proof (cases "willBeStarted (snd w) \<le> t")
    case True
    then have "willBeStarted (snd w) + int (nat (t - willBeStarted (snd w))) = t"
      and "nat \<bar>t - willBeStarted (snd w)\<bar> = nat (t - willBeStarted (snd w))" by simp_all
    with scaleTo_loop_up [OF assms(1), of w "nat (t - willBeStarted (snd w))" t f] True st
    show ?thesis by (simp only: fuel if_True)
  next
    case False
    then have "willBeStarted (snd w) - int (nat (willBeStarted (snd w) - t)) = t"
      and "nat \<bar>t - willBeStarted (snd w)\<bar> = nat (willBeStarted (snd w) - t)" by simp_all
    with scaleTo_loop_down [OF assms(1), of w "nat (willBeStarted (snd w) - t)" t f] False st
    show ?thesis by (simp only: fuel if_False)
  qed
qed

lemma fuel_mono_all:
  "(\<forall>c v w r. scaleBy f c v w = Some r \<longrightarrow> scaleBy (f + k) c v w = Some r) \<and>
   (\<forall>c v w r. scaleBy_up f c v w = Some r \<longrightarrow> scaleBy_up (f + k) c v w = Some r) \<and>
   (\<forall>c v w r. scaleBy_down f c v w = Some r \<longrightarrow> scaleBy_down (f + k) c v w = Some r) \<and>
   (\<forall>c w r. scaleUp f c w = Some r \<longrightarrow> scaleUp (f + k) c w = Some r) \<and>
   (\<forall>c w r. scaleDown f c w = Some r \<longrightarrow> scaleDown (f + k) c w = Some r)"
proof (induction f)
  case 0
  show ?case by simp
next
  case (Suc f)
  then have by0: "\<And>c v w r. scaleBy f c v w = Some r \<Longrightarrow> scaleBy (f + k) c v w = Some r"
    and up0: "\<And>c v w r. scaleBy_up f c v w = Some r \<Longrightarrow> scaleBy_up (f + k) c v w = Some r"
    and down0: "\<And>c v w r. scaleBy_down f c v w = Some r \<Longrightarrow> scaleBy_down (f + k) c v w = Some r"
    and su0: "\<And>c w r. scaleUp f c w = Some r \<Longrightarrow> scaleUp (f + k) c w = Some r"
    and sd0: "\<And>c w r. scaleDown f c w = Some r \<Longrightarrow> scaleDown (f + k) c w = Some r"
    by blast+
  have a: "scaleBy (Suc f + k) c v w = Some r" if "scaleBy (Suc f) c v w = Some r" for c v w r
    using that up0 [of c v w r] by (auto split: if_splits)
  have b: "scaleBy_up (Suc f + k) c v w = Some r" if h: "scaleBy_up (Suc f) c v w = Some r"
    for c v w r
  proof (cases "py_gt v 0")
    case False
    with h down0 [of c v w r] show ?thesis by simp
  next
    case True
    show ?thesis
    proof (cases "scaleUp f c w")
      case None
      with h True show ?thesis by simp
    next
      case (Some r1)
      note s1 = su0 [OF Some]
      show ?thesis
      proof (cases r1)
        case (Raise err w')
        with h True Some s1 show ?thesis by auto
      next
        case (Return w')
        show ?thesis
        proof (cases "py_add v (- 1)")
          case (Inl err)
          with h True Some s1 Return show ?thesis by auto
        next
          case (Inr v')
          with h True Some Return have "scaleBy_up f c v' w' = Some r" by simp
          from up0 [OF this] True Some s1 Return Inr show ?thesis by simp
        qed
      qed
    qed
  qed
  have d: "scaleBy_down (Suc f + k) c v w = Some r" if h: "scaleBy_down (Suc f) c v w = Some r"
    for c v w r
  proof (cases "py_lt v 0")
    case False
    with h show ?thesis by simp
  next
    case True
    show ?thesis
    proof (cases "scaleDown f c w")
      case None
      with h True show ?thesis by simp
    next
      case (Some r1)
      note s1 = sd0 [OF Some]
      show ?thesis
      proof (cases r1)
        case (Raise err w')
        with h True Some s1 show ?thesis by auto
      next
        case (Return w')
        show ?thesis
        proof (cases "py_add v 1")
          case (Inl err)
          with h True Some s1 Return show ?thesis by auto
        next
          case (Inr v')
          with h True Some Return have "scaleBy_down f c v' w' = Some r" by simp
          from down0 [OF this] True Some s1 Return Inr show ?thesis by simp
        qed
      qed
    qed
  qed
  have u: "scaleUp (Suc f + k) c w = Some r" if h: "scaleUp (Suc f) c w = Some r" for c w r
    using h by0 by (auto simp: Let_def split: list.splits sum.splits)
  have dn: "scaleDown (Suc f + k) c w = Some r" if h: "scaleDown (Suc f) c w = Some r" for c w r
    using h by0 by (auto simp: Let_def split: list.splits sum.splits)
  from a b d u dn show ?case by blast
qed

lemma scaleBy_mono:
  assumes "scaleBy f c v w = Some r" and "f \<le> f'"
  shows "scaleBy f' c v w = Some r"
proof -
  from assms(2) obtain k where "f' = f + k" by (auto simp: le_iff_add)
  with fuel_mono_all [of f k] assms(1) show ?thesis by blast
qed

lemma scaleBy_up_mono:
  assumes "scaleBy_up f c v w = Some r" and "f \<le> f'"
  shows "scaleBy_up f' c v w = Some r"
proof -
  from assms(2) obtain k where "f' = f + k" by (auto simp: le_iff_add)
  with fuel_mono_all [of f k] assms(1) show ?thesis by blast
qed

lemma scaleBy_down_mono:
  assumes "scaleBy_down f c v w = Some r" and "f \<le> f'"
  shows "scaleBy_down f' c v w = Some r"
proof -
  from assms(2) obtain k where "f' = f + k" by (auto simp: le_iff_add)
  with fuel_mono_all [of f k] assms(1) show ?thesis by blast
qed

lemma scaleUp_mono:
  assumes "scaleUp f c w = Some r" and "f \<le> f'"
  shows "scaleUp f' c w = Some r"
proof -
  from assms(2) obtain k where "f' = f + k" by (auto simp: le_iff_add)
  with fuel_mono_all [of f k] assms(1) show ?thesis by blast
qed

lemma scaleDown_mono:
  assumes "scaleDown f c w = Some r" and "f \<le> f'"
  shows "scaleDown f' c w = Some r"
proof -
  from assms(2) obtain k where "f' = f + k" by (auto simp: le_iff_add)
  with fuel_mono_all [of f k] assms(1) show ?thesis by blast
qed

lemma scaleUp_selects:
  assumes "firstWithStatus STOPPED (backends (snd w)) i"
    and "0 \<le> nextStartupDelay c (snd w)"
  shows "\<exists>w1. backends (snd w1) = setStatus i STARTING (backends (snd w)) \<and>
           logged (snd w1) = logged (snd w) @ [(backendName (backends (snd w) ! i), ''STARTING'')] \<and>
           events (fst w1) = events (fst w) @
             [\<lparr>fireTime = now (fst w) + nextStartupDelay c (snd w),
               sequenceNumber = nextSequenceNumber (fst w),
               callbackIdentity = StartupCompleted i\<rparr>] \<and>
           scaleUp (Suc f) c w =
             scaleBy f c (onStatus c (\<lambda>s. length (backendsWithStatus s (backends (snd w1))))) w1"
proof -
  let ?a3 = "(snd w)\<lparr>logged := logged (snd w) @ [(backendName (backends (snd w) ! i), ''STARTING'')],
               backends := setStatus i STARTING (backends (snd w)),
               delayCalls := (case startupDelay c of FixedDelay d \<Rightarrow> delayCalls (snd w)
                              | CallableDelay g \<Rightarrow> Suc (delayCalls (snd w)))\<rparr>"
  let ?k = "(fst w)\<lparr>events := events (fst w) @
             [\<lparr>fireTime = now (fst w) + nextStartupDelay c (snd w),
               sequenceNumber = nextSequenceNumber (fst w),
               callbackIdentity = StartupCompleted i\<rparr>],
             nextSequenceNumber := Suc (nextSequenceNumber (fst w))\<rparr>"
  have "scaleUp (Suc f) c w =
      scaleBy f c (onStatus c (\<lambda>s. length (backendsWithStatus s (backends ?a3)))) (?k, ?a3)"
    using assms(2)
    by (simp add: firstWithStatus_hd [OF assms(1)] add_def Let_def getStatus_ok
        nextStartupDelay_def split: delay_source.splits)
  then show ?thesis by (intro exI [of _ "(?k, ?a3)"]) simp
qed

lemma scaleDown_selects:
  assumes "lastWithStatus STARTED (backends (snd w)) j"
  shows "\<exists>w1. backends (snd w1) = setStatus j STOPPING (backends (snd w)) \<and>
           logged (snd w1) = logged (snd w) @ [(backendName (backends (snd w) ! j), ''STOPPING'')] \<and>
           lbDraining (snd w1) = lbDraining (snd w) @ [j] \<and>
           j \<notin> set (lbBackends (snd w1)) \<and>
           fst w1 = fst w \<and>
           scaleDown (Suc f) c w =
             scaleBy f c (onStatus c (\<lambda>s. length (backendsWithStatus s (backends (snd w1))))) w1"
proof -
  let ?a3 = "(snd w)\<lparr>logged := logged (snd w) @ [(backendName (backends (snd w) ! j), ''STOPPING'')],
               backends := setStatus j STOPPING (backends (snd w)),
               lbBackends := removeAll j (lbBackends (snd w)),
               lbDraining := lbDraining (snd w) @ [j]\<rparr>"
  have "scaleDown (Suc f) c w =
      scaleBy f c (onStatus c (\<lambda>s. length (backendsWithStatus s (backends ?a3)))) (fst w, ?a3)"
    by (simp add: lastWithStatus_hd [OF assms] Let_def getStatus_ok)
  then show ?thesis by (intro exI [of _ "(fst w, ?a3)"]) simp
qed

lemma actionable_setStatus_STARTING:
  assumes "backendsWithStatus STOPPED bs = i # rest"
  shows "length (backendsWithStatus STOPPED (setStatus i STARTING bs)) +
         length (backendsWithStatus STARTED (setStatus i STARTING bs)) <
         length (backendsWithStatus STOPPED bs) + length (backendsWithStatus STARTED bs)"
proof -
  from backendsWithStatus_hd [OF assms] have i: "i < length bs" "autoScaleStatus (bs ! i) = STOPPED"
    by simp_all
  from count_setStatus [OF i(1), of STOPPED STARTING] count_setStatus [OF i(1), of STARTED STARTING]
    i(2) assms
  show ?thesis by simp
qed

lemma actionable_setStatus_STOPPING:
  assumes "rev (backendsWithStatus STARTED bs) = i # rest"
  shows "length (backendsWithStatus STOPPED (setStatus i STOPPING bs)) +
         length (backendsWithStatus STARTED (setStatus i STOPPING bs)) <
         length (backendsWithStatus STOPPED bs) + length (backendsWithStatus STARTED bs)"
proof -
  from backendsWithStatus_last [OF assms] have i: "i < length bs" "autoScaleStatus (bs ! i) = STARTED"
    by simp_all
  from assms have "length (backendsWithStatus STARTED bs) = Suc (length rest)"
    by (metis length_Cons length_rev)
  with count_setStatus [OF i(1), of STOPPED STOPPING] count_setStatus [OF i(1), of STARTED STOPPING]
    i(2)
  show ?thesis by simp
qed

text \<open>One unit action: what scaleUp and scaleDown do before they consult the controller.\<close>

lemma scaleUp_cases:
  obtains (none) "backendsWithStatus STOPPED (backends (snd w)) = []"
      "\<And>f. scaleUp (Suc f) c w = Some (Raise (RuntimeError
           ''AutoScaler was asked to scale up, but no backends are available.'') w)"
  | (rejected) err w1 where "actionable (snd w1) < actionable (snd w)"
      "\<And>f. scaleUp (Suc f) c w = Some (Raise err w1)"
  | (selected) v w1 where "actionable (snd w1) < actionable (snd w)"
      "\<And>f. scaleUp (Suc f) c w = scaleBy f c v w1"
proof (cases "backendsWithStatus STOPPED (backends (snd w))")
  case Nil
  then show ?thesis by (intro none) simp_all
next
  case (Cons i rest)
  let ?a3 = "(snd w)\<lparr>logged := logged (snd w) @ [(backendName (backends (snd w) ! i), ''STARTING'')],
               backends := setStatus i STARTING (backends (snd w)),
               delayCalls := (case startupDelay c of FixedDelay d \<Rightarrow> delayCalls (snd w)
                              | CallableDelay g \<Rightarrow> Suc (delayCalls (snd w)))\<rparr>"
  have m: "actionable ?a3 < actionable (snd w)"
    using actionable_setStatus_STARTING [OF Cons] by (simp add: actionable_def)
  show ?thesis
  proof (cases "add (nextStartupDelay c (snd w)) (StartupCompleted i) (fst w)")
    case (Inl err)
    have "scaleUp (Suc f) c w = Some (Raise err (fst w, ?a3))" for f
      using Cons Inl
      by (simp add: Let_def nextStartupDelay_def split: delay_source.splits)
    with m show ?thesis by (intro rejected [of "(fst w, ?a3)" err]) simp_all
  next
    case (Inr k)
    have "scaleUp (Suc f) c w =
        scaleBy f c (onStatus c (\<lambda>s. length (backendsWithStatus s (backends ?a3)))) (k, ?a3)" for f
      using Cons Inr
      by (simp add: Let_def nextStartupDelay_def getStatus_ok split: delay_source.splits)
    with m show ?thesis by (intro selected [of "(k, ?a3)"]) simp_all
  qed
qed

lemma scaleDown_cases:
  obtains (none) "rev (backendsWithStatus STARTED (backends (snd w))) = []"
      "\<And>f. scaleDown (Suc f) c w = Some (Raise (RuntimeError
           ''AutoScaler was asked to scale down, but no backends are started.'') w)"
  | (selected) v w1 where "actionable (snd w1) < actionable (snd w)"
      "\<And>f. scaleDown (Suc f) c w = scaleBy f c v w1"
proof (cases "rev (backendsWithStatus STARTED (backends (snd w)))")
  case Nil
  then show ?thesis by (intro none) simp_all
next
  case (Cons i rest)
  let ?a3 = "(snd w)\<lparr>logged := logged (snd w) @ [(backendName (backends (snd w) ! i), ''STOPPING'')],
               backends := setStatus i STOPPING (backends (snd w)),
               lbBackends := removeAll i (lbBackends (snd w)),
               lbDraining := lbDraining (snd w) @ [i]\<rparr>"
  have m: "actionable ?a3 < actionable (snd w)"
    using actionable_setStatus_STOPPING [OF Cons] by (simp add: actionable_def)
  have "scaleDown (Suc f) c w =
      scaleBy f c (onStatus c (\<lambda>s. length (backendsWithStatus s (backends ?a3)))) (fst w, ?a3)" for f
    using Cons by (simp add: Let_def getStatus_ok)
  with m show ?thesis by (intro selected [of "(fst w, ?a3)"]) simp_all
qed

lemma stateOf_simps [simp]: "stateOf (Return w) = w" "stateOf (Raise err w) = w"
  by (simp_all add: stateOf_def)

lemma scaleUp_total_step:
  assumes IH: "\<And>w' v. actionable (snd w') < actionable (snd w) \<Longrightarrow>
      \<exists>f r. scaleBy f c v w' = Some r \<and> actionable (snd (stateOf r)) \<le> actionable (snd w')"
  shows "\<exists>f r. scaleUp f c w = Some r \<and> actionable (snd (stateOf r)) \<le> actionable (snd w) \<and>
           (\<forall>w'. r = Return w' \<longrightarrow> actionable (snd w') < actionable (snd w))"
proof (cases rule: scaleUp_cases [of w c])
  case none
  from none(2) [of 0] show ?thesis by (intro exI [of _ "Suc 0"]) auto
next
  case (rejected err w1)
  from rejected(2) [of 0] rejected(1) show ?thesis by (intro exI [of _ "Suc 0"]) auto
next
  case (selected v w1)
  from IH [OF selected(1), of v] obtain f r where
    r: "scaleBy f c v w1 = Some r" "actionable (snd (stateOf r)) \<le> actionable (snd w1)" by blast
  from selected(2) [of f] r(1) have "scaleUp (Suc f) c w = Some r" by simp
  moreover from r(2) selected(1) have "actionable (snd (stateOf r)) < actionable (snd w)" by simp
  ultimately show ?thesis by (intro exI [of _ "Suc f"] exI [of _ r]) auto
qed

lemma scaleDown_total_step:
  assumes IH: "\<And>w' v. actionable (snd w') < actionable (snd w) \<Longrightarrow>
      \<exists>f r. scaleBy f c v w' = Some r \<and> actionable (snd (stateOf r)) \<le> actionable (snd w')"
  shows "\<exists>f r. scaleDown f c w = Some r \<and> actionable (snd (stateOf r)) \<le> actionable (snd w) \<and>
           (\<forall>w'. r = Return w' \<longrightarrow> actionable (snd w') < actionable (snd w))"
proof (cases rule: scaleDown_cases [of w c])
  case none
  from none(2) [of 0] show ?thesis by (intro exI [of _ "Suc 0"]) auto
next
  case (selected v w1)
  from IH [OF selected(1), of v] obtain f r where
    r: "scaleBy f c v w1 = Some r" "actionable (snd (stateOf r)) \<le> actionable (snd w1)" by blast
  from selected(2) [of f] r(1) have "scaleDown (Suc f) c w = Some r" by simp
  moreover from r(2) selected(1) have "actionable (snd (stateOf r)) < actionable (snd w)" by simp
  ultimately show ?thesis by (intro exI [of _ "Suc f"] exI [of _ r]) auto
qed

lemma total_all:
  "(\<forall>v. \<exists>f r. scaleBy f c v w = Some r \<and> actionable (snd (stateOf r)) \<le> actionable (snd w)) \<and>
   (\<forall>v. \<exists>f r. scaleBy_up f c v w = Some r \<and> actionable (snd (stateOf r)) \<le> actionable (snd w)) \<and>
   (\<forall>v. \<exists>f r. scaleBy_down f c v w = Some r \<and> actionable (snd (stateOf r)) \<le> actionable (snd w))"
proof (induction "actionable (snd w)" arbitrary: w rule: less_induct)
  case less
  have IHby: "\<exists>f r. scaleBy f c v w' = Some r \<and> actionable (snd (stateOf r)) \<le> actionable (snd w')"
    if "actionable (snd w') < actionable (snd w)" for w' v
    using less [OF that] by blast
  have IHup: "\<exists>f r. scaleBy_up f c v w' = Some r \<and> actionable (snd (stateOf r)) \<le> actionable (snd w')"
    if "actionable (snd w') < actionable (snd w)" for w' v
    using less [OF that] by blast
  have IHdown: "\<exists>f r. scaleBy_down f c v w' = Some r \<and> actionable (snd (stateOf r)) \<le> actionable (snd w')"
    if "actionable (snd w') < actionable (snd w)" for w' v
    using less [OF that] by blast
  note up = scaleUp_total_step [of w c, OF IHby]
  note dn = scaleDown_total_step [of w c, OF IHby]
  have D: "\<exists>f r. scaleBy_down f c v w = Some r \<and> actionable (snd (stateOf r)) \<le> actionable (snd w)"
    for v
  proof (cases "py_lt v 0")
    case False
    then have "scaleBy_down (Suc 0) c v w = Some (Return w)" by simp
    then show ?thesis by (intro exI [of _ "Suc 0"] exI [of _ "Return w"]) simp
  next
    case True
    from dn obtain f1 r1 where r1: "scaleDown f1 c w = Some r1"
      "actionable (snd (stateOf r1)) \<le> actionable (snd w)"
      "\<forall>w'. r1 = Return w' \<longrightarrow> actionable (snd w') < actionable (snd w)" by blast
    show ?thesis
    proof (cases r1)
      case (Raise err w')
      with True r1(1) have "scaleBy_down (Suc f1) c v w = Some r1" by simp
      with r1(2) show ?thesis by blast
    next
      case (Return w')
      with r1(3) have lt: "actionable (snd w') < actionable (snd w)" by simp
      show ?thesis
      proof (cases "py_add v 1")
        case (Inl err)
        with True r1(1) Return have "scaleBy_down (Suc f1) c v w = Some (Raise err w')" by simp
        moreover from lt have "actionable (snd (stateOf (Raise err w'))) \<le> actionable (snd w)"
          by simp
        ultimately show ?thesis by blast
      next
        case (Inr v')
        from IHdown [OF lt, of v'] obtain f2 r2 where
          r2: "scaleBy_down f2 c v' w' = Some r2"
          "actionable (snd (stateOf r2)) \<le> actionable (snd w')" by blast
        from scaleDown_mono [OF r1(1), of "max f1 f2"] Return
        have a: "scaleDown (max f1 f2) c w = Some (Return w')" by simp
        from scaleBy_down_mono [OF r2(1), of "max f1 f2"]
        have b: "scaleBy_down (max f1 f2) c v' w' = Some r2" by simp
        from True a b Inr have "scaleBy_down (Suc (max f1 f2)) c v w = Some r2" by simp
        moreover from r2(2) lt have "actionable (snd (stateOf r2)) \<le> actionable (snd w)" by simp
        ultimately show ?thesis by blast
      qed
    qed
  qed
  have U: "\<exists>f r. scaleBy_up f c v w = Some r \<and> actionable (snd (stateOf r)) \<le> actionable (snd w)"
    for v
  proof (cases "py_gt v 0")
    case False
    from D [of v] obtain f r where r: "scaleBy_down f c v w = Some r"
      "actionable (snd (stateOf r)) \<le> actionable (snd w)" by blast
    from False r(1) have "scaleBy_up (Suc f) c v w = Some r" by simp
    with r(2) show ?thesis by blast
  next
    case True
    from up obtain f1 r1 where r1: "scaleUp f1 c w = Some r1"
      "actionable (snd (stateOf r1)) \<le> actionable (snd w)"
      "\<forall>w'. r1 = Return w' \<longrightarrow> actionable (snd w') < actionable (snd w)" by blast
    show ?thesis
    proof (cases r1)
      case (Raise err w')
      with True r1(1) have "scaleBy_up (Suc f1) c v w = Some r1" by simp
      with r1(2) show ?thesis by blast
    next
      case (Return w')
      with r1(3) have lt: "actionable (snd w') < actionable (snd w)" by simp
      show ?thesis
      proof (cases "py_add v (- 1)")
        case (Inl err)
        with True r1(1) Return have "scaleBy_up (Suc f1) c v w = Some (Raise err w')" by simp
        moreover from lt have "actionable (snd (stateOf (Raise err w'))) \<le> actionable (snd w)"
          by simp
        ultimately show ?thesis by blast
      next
        case (Inr v')
        from IHup [OF lt, of v'] obtain f2 r2 where
          r2: "scaleBy_up f2 c v' w' = Some r2"
          "actionable (snd (stateOf r2)) \<le> actionable (snd w')" by blast
        from scaleUp_mono [OF r1(1), of "max f1 f2"] Return
        have a: "scaleUp (max f1 f2) c w = Some (Return w')" by simp
        from scaleBy_up_mono [OF r2(1), of "max f1 f2"]
        have b: "scaleBy_up (max f1 f2) c v' w' = Some r2" by simp
        from True a b Inr have "scaleBy_up (Suc (max f1 f2)) c v w = Some r2" by simp
        moreover from r2(2) lt have "actionable (snd (stateOf r2)) \<le> actionable (snd w)" by simp
        ultimately show ?thesis by blast
      qed
    qed
  qed
  have B: "\<exists>f r. scaleBy f c v w = Some r \<and> actionable (snd (stateOf r)) \<le> actionable (snd w)"
    for v
  proof (cases "py_eq v 0")
    case True
    then have "scaleBy (Suc 0) c v w = Some (Return w)" by simp
    then show ?thesis by (intro exI [of _ "Suc 0"] exI [of _ "Return w"]) simp
  next
    case False
    from U [of v] obtain f r where r: "scaleBy_up f c v w = Some r"
      "actionable (snd (stateOf r)) \<le> actionable (snd w)" by blast
    from False r(1) have "scaleBy (Suc f) c v w = Some r" by simp
    with r(2) show ?thesis by blast
  qed
  from B U D show ?case by blast
qed

lemma scaleBy_total: "\<exists>f r. scaleBy f c v w = Some r"
  using total_all [of c w] by blast

lemma scaleUp_total:
  "\<exists>f r. scaleUp f c w = Some r \<and>
     (\<forall>w'. r = Return w' \<longrightarrow> actionable (snd w') < actionable (snd w))"
proof -
  have "\<exists>f r. scaleBy f c v w' = Some r \<and> actionable (snd (stateOf r)) \<le> actionable (snd w')"
    for w' v using total_all [of c w'] by blast
  from scaleUp_total_step [of w c, OF this] show ?thesis by blast
qed

lemma scaleDown_total:
  "\<exists>f r. scaleDown f c w = Some r \<and>
     (\<forall>w'. r = Return w' \<longrightarrow> actionable (snd w') < actionable (snd w))"
proof -
  have "\<exists>f r. scaleBy f c v w' = Some r \<and> actionable (snd (stateOf r)) \<le> actionable (snd w')"
    for w' v using total_all [of c w'] by blast
  from scaleDown_total_step [of w c, OF this] show ?thesis by blast
qed

lemma repeat_calls_mono:
  assumes "\<And>w r. g w = Some r \<Longrightarrow> g' w = Some r"
  shows "repeat_calls n g w = Some r \<Longrightarrow> repeat_calls n g' w = Some r"
proof (induction n arbitrary: w)
  case 0
  then show ?case by simp
next
  case (Suc n)
  show ?case
  proof (cases "g w")
    case None
    with Suc.prems show ?thesis by simp
  next
    case (Some r1)
    note g' = assms [OF Some]
    show ?thesis
    proof (cases r1)
      case (Raise err w')
      with Suc.prems Some g' show ?thesis by auto
    next
      case (Return w')
      with Suc.prems Some have "repeat_calls n g w' = Some r" by simp
      from Suc.IH [OF this] Some g' Return show ?thesis by simp
    qed
  qed
qed

lemma scaleBy_up_repeat:
  "scaleBy_up f c (PyInt (int n)) w = Some r \<Longrightarrow> repeat_calls n (scaleUp f c) w = Some r"
proof (induction n arbitrary: f w)
  case 0
  from 0 obtain f1 where f: "f = Suc f1" by (cases f) auto
  with 0 have d: "scaleBy_down f1 c (PyInt 0) w = Some r" by (simp add: py_gt_def)
  then obtain f2 where "f1 = Suc f2" by (cases f1) auto
  with d show ?case by (simp add: py_lt_def)
next
  case (Suc n)
  from Suc.prems obtain f1 where f: "f = Suc f1" by (cases f) auto
  have gt: "py_gt (PyInt (int (Suc n))) 0" by (simp add: py_gt_def)
  have add: "py_add (PyInt (int (Suc n))) (- 1) = Inr (PyInt (int n))" by (simp add: py_add_def)
  have unf: "scaleBy_up (Suc f1) c (PyInt (int (Suc n))) w =
      (case scaleUp f1 c w of None \<Rightarrow> None
       | Some (Raise err w') \<Rightarrow> Some (Raise err w')
       | Some (Return w') \<Rightarrow> scaleBy_up f1 c (PyInt (int n)) w')"
    apply (subst scaleBy_up.simps)
    apply (simp add: py_gt_def py_add_def del: scaleBy_up.simps scaleUp.simps
        split: option.splits outcome.splits)
    done
  from Suc.prems have step: "(case scaleUp f1 c w of None \<Rightarrow> None
      | Some (Raise err w') \<Rightarrow> Some (Raise err w')
      | Some (Return w') \<Rightarrow> scaleBy_up f1 c (PyInt (int n)) w') = Some r"
    unfolding f unf .
  show ?case
  proof (cases "scaleUp f1 c w")
    case None
    with step show ?thesis by simp
  next
    case (Some r1)
    from scaleUp_mono [OF Some, of f] f have up: "scaleUp f c w = Some r1" by simp
    show ?thesis
    proof (cases r1)
      case (Raise err w')
      with step Some up show ?thesis by (auto simp del: scaleUp.simps)
    next
      case (Return w')
      with step Some have "scaleBy_up f1 c (PyInt (int n)) w' = Some r" by simp
      from Suc.IH [OF this] have "repeat_calls n (scaleUp f1 c) w' = Some r" .
      moreover have "scaleUp f1 c x = Some y \<Longrightarrow> scaleUp f c x = Some y" for x y
        using scaleUp_mono [of f1 c x y f] f by simp
      ultimately have "repeat_calls n (scaleUp f c) w' = Some r"
        by (rule repeat_calls_mono [rotated])
      with up Return show ?thesis by (simp del: scaleUp.simps)
    qed
  qed
qed

lemma scaleBy_down_repeat:
  "scaleBy_down f c (PyInt (- int n)) w = Some r \<Longrightarrow> repeat_calls n (scaleDown f c) w = Some r"
proof (induction n arbitrary: f w)
  case 0
  from 0 obtain f1 where f: "f = Suc f1" by (cases f) auto
  with 0 show ?case by (simp add: py_lt_def)
next
  case (Suc n)
  from Suc.prems obtain f1 where f: "f = Suc f1" by (cases f) auto
  have lt: "py_lt (PyInt (- int (Suc n))) 0" by (simp add: py_lt_def)
  have add: "py_add (PyInt (- int (Suc n))) 1 = Inr (PyInt (- int n))" by (simp add: py_add_def)
  have unf: "scaleBy_down (Suc f1) c (PyInt (- int (Suc n))) w =
      (case scaleDown f1 c w of None \<Rightarrow> None
       | Some (Raise err w') \<Rightarrow> Some (Raise err w')
       | Some (Return w') \<Rightarrow> scaleBy_down f1 c (PyInt (- int n)) w')"
    apply (subst scaleBy_down.simps)
    apply (simp add: py_lt_def py_add_def del: scaleBy_down.simps scaleDown.simps
        split: option.splits outcome.splits)
    done
  from Suc.prems have step: "(case scaleDown f1 c w of None \<Rightarrow> None
      | Some (Raise err w') \<Rightarrow> Some (Raise err w')
      | Some (Return w') \<Rightarrow> scaleBy_down f1 c (PyInt (- int n)) w') = Some r"
    unfolding f unf .
  show ?case
  proof (cases "scaleDown f1 c w")
    case None
    with step show ?thesis by simp
  next
    case (Some r1)
    from scaleDown_mono [OF Some, of f] f have dn: "scaleDown f c w = Some r1" by simp
    show ?thesis
    proof (cases r1)
      case (Raise err w')
      with step Some dn show ?thesis by (auto simp del: scaleDown.simps)
    next
      case (Return w')
      with step Some have "scaleBy_down f1 c (PyInt (- int n)) w' = Some r" by simp
      from Suc.IH [OF this] have "repeat_calls n (scaleDown f1 c) w' = Some r" .
      moreover have "scaleDown f1 c x = Some y \<Longrightarrow> scaleDown f c x = Some y" for x y
        using scaleDown_mono [of f1 c x y f] f by simp
      ultimately have "repeat_calls n (scaleDown f c) w' = Some r"
        by (rule repeat_calls_mono [rotated])
      with dn Return show ?thesis by (simp del: scaleDown.simps)
    qed
  qed
qed

lemma scaleBy_int_any:
  "\<exists>N r. \<forall>fuel. N \<le> fuel \<longrightarrow>
     scaleBy fuel c (PyInt n) w = Some r \<and>
     (if 0 < n then repeat_calls (nat n) (scaleUp fuel c) w
      else repeat_calls (nat (- n)) (scaleDown fuel c) w) = Some r"
proof -
  from scaleBy_total [of c "PyInt n" w] obtain N r where N: "scaleBy N c (PyInt n) w = Some r"
    by blast
  then obtain N1 where N1: "N = Suc N1" by (cases N) auto
  have "scaleBy fuel c (PyInt n) w = Some r \<and>
     (if 0 < n then repeat_calls (nat n) (scaleUp fuel c) w
      else repeat_calls (nat (- n)) (scaleDown fuel c) w) = Some r" if fuel: "N \<le> fuel" for fuel
  proof -
    from scaleBy_mono [OF N fuel] have a: "scaleBy fuel c (PyInt n) w = Some r" .
    have b: "(if 0 < n then repeat_calls (nat n) (scaleUp fuel c) w
      else repeat_calls (nat (- n)) (scaleDown fuel c) w) = Some r"
    proof (cases "n = 0")
      case True
      with N N1 show ?thesis by (simp add: py_eq_def)
    next
      case nz: False
      with N N1 have up: "scaleBy_up N1 c (PyInt n) w = Some r" by (simp add: py_eq_def)
      show ?thesis
      proof (cases "0 < n")
        case True
        then have "PyInt n = PyInt (int (nat n))" by simp
        with up have "scaleBy_up N1 c (PyInt (int (nat n))) w = Some r" by simp
        from scaleBy_up_repeat [OF this] have "repeat_calls (nat n) (scaleUp N1 c) w = Some r" .
        moreover have "scaleUp N1 c x = Some y \<Longrightarrow> scaleUp fuel c x = Some y" for x y
          using scaleUp_mono [of N1 c x y fuel] fuel N1 by simp
        ultimately have "repeat_calls (nat n) (scaleUp fuel c) w = Some r"
          by (rule repeat_calls_mono [rotated])
        with True show ?thesis by simp
      next
        case False
        with nz have neg: "PyInt n = PyInt (- int (nat (- n)))" by simp
        from up obtain N2 where N2: "N1 = Suc N2" by (cases N1) auto
        with up False have "scaleBy_down N2 c (PyInt n) w = Some r" by (simp add: py_gt_def)
        with neg have "scaleBy_down N2 c (PyInt (- int (nat (- n)))) w = Some r" by simp
        from scaleBy_down_repeat [OF this]
        have "repeat_calls (nat (- n)) (scaleDown N2 c) w = Some r" .
        moreover have "scaleDown N2 c x = Some y \<Longrightarrow> scaleDown fuel c x = Some y" for x y
          using scaleDown_mono [of N2 c x y fuel] fuel N1 N2 by simp
        ultimately have "repeat_calls (nat (- n)) (scaleDown fuel c) w = Some r"
          by (rule repeat_calls_mono [rotated])
        with False show ?thesis by simp
      qed
    qed
    from a b show ?thesis ..
  qed
  then show ?thesis by blast
qed

lemma scaleTo_loop_step_any:
  "scaleTo_loop (Suc f) c v w =
     (if py_gt v (willBeStarted (snd w)) then
        (case scaleUp f c w of None \<Rightarrow> None
         | Some (Raise err w') \<Rightarrow> Some (Raise err w')
         | Some (Return w') \<Rightarrow> scaleTo_loop f c v w')
      else if py_lt v (willBeStarted (snd w)) then
        (case scaleDown f c w of None \<Rightarrow> None
         | Some (Raise err w') \<Rightarrow> Some (Raise err w')
         | Some (Return w') \<Rightarrow> scaleTo_loop f c v w')
      else Some (Return w))"
  by (simp add: getStatus_ok willBeStarted_def Let_def del: scaleUp.simps scaleDown.simps)

lemma scaleTo_loop_mono:
  "scaleTo_loop f c v w = Some r \<Longrightarrow> f \<le> f' \<Longrightarrow> scaleTo_loop f' c v w = Some r"
proof (induction f arbitrary: w f')
  case 0
  then show ?case by simp
next
  case (Suc f)
  from Suc.prems(2) obtain f1 where f': "f' = Suc f1" and le: "f \<le> f1" by (cases f') auto
  note p = Suc.prems(1) [unfolded scaleTo_loop_step_any]
  show ?case unfolding f' scaleTo_loop_step_any
  proof (cases "py_gt v (willBeStarted (snd w))")
    case True
    show "(if py_gt v (willBeStarted (snd w)) then
        (case scaleUp f1 c w of None \<Rightarrow> None
         | Some (Raise err w') \<Rightarrow> Some (Raise err w')
         | Some (Return w') \<Rightarrow> scaleTo_loop f1 c v w')
      else if py_lt v (willBeStarted (snd w)) then
        (case scaleDown f1 c w of None \<Rightarrow> None
         | Some (Raise err w') \<Rightarrow> Some (Raise err w')
         | Some (Return w') \<Rightarrow> scaleTo_loop f1 c v w')
      else Some (Return w)) = Some r"
    proof (cases "scaleUp f c w")
      case None
      with p True show ?thesis by simp
    next
      case (Some r1)
      note up = scaleUp_mono [OF Some le]
      show ?thesis
      proof (cases r1)
        case (Raise err w')
        with p True Some up show ?thesis by auto
      next
        case (Return w')
        with p True Some have "scaleTo_loop f c v w' = Some r" by simp
        from Suc.IH [OF this le] True up Return show ?thesis by simp
      qed
    qed
  next
    case False
    show "(if py_gt v (willBeStarted (snd w)) then
        (case scaleUp f1 c w of None \<Rightarrow> None
         | Some (Raise err w') \<Rightarrow> Some (Raise err w')
         | Some (Return w') \<Rightarrow> scaleTo_loop f1 c v w')
      else if py_lt v (willBeStarted (snd w)) then
        (case scaleDown f1 c w of None \<Rightarrow> None
         | Some (Raise err w') \<Rightarrow> Some (Raise err w')
         | Some (Return w') \<Rightarrow> scaleTo_loop f1 c v w')
      else Some (Return w)) = Some r"
    proof (cases "py_lt v (willBeStarted (snd w))")
      case lt: True
      show ?thesis
      proof (cases "scaleDown f c w")
        case None
        with p False lt show ?thesis by simp
      next
        case (Some r1)
        note dn = scaleDown_mono [OF Some le]
        show ?thesis
        proof (cases r1)
          case (Raise err w')
          with p False lt Some dn show ?thesis by auto
        next
          case (Return w')
          with p False lt Some have "scaleTo_loop f c v w' = Some r" by simp
          from Suc.IH [OF this le] False lt dn Return show ?thesis by simp
        qed
      qed
    next
      case nlt: False
      with p False show ?thesis by simp
    qed
  qed
qed

lemma scaleTo_loop_total:
  "\<exists>f r. scaleTo_loop f c (PyInt t) w = Some r \<and>
     (\<forall>w2. r = Return w2 \<longrightarrow> willBeStarted (snd w2) = t)"
proof (induction "actionable (snd w)" arbitrary: w rule: less_induct)
  case less
  show ?case
  proof (cases "willBeStarted (snd w) < t")
    case True
    from scaleUp_total [of c w] obtain f1 r1 where r1: "scaleUp f1 c w = Some r1"
      "\<forall>w'. r1 = Return w' \<longrightarrow> actionable (snd w') < actionable (snd w)" by blast
    show ?thesis
    proof (cases r1)
      case (Raise err w')
      with True r1(1) have "scaleTo_loop (Suc f1) c (PyInt t) w = Some (Raise err w')"
        by (simp add: scaleTo_loop_step del: scaleTo_loop.simps)
      then show ?thesis by blast
    next
      case (Return w')
      with r1(2) have "actionable (snd w') < actionable (snd w)" by simp
      from less [OF this] obtain f2 r2 where r2: "scaleTo_loop f2 c (PyInt t) w' = Some r2"
        "\<forall>w2. r2 = Return w2 \<longrightarrow> willBeStarted (snd w2) = t" by blast
      from scaleUp_mono [OF r1(1), of "max f1 f2"] Return
      have a: "scaleUp (max f1 f2) c w = Some (Return w')" by simp
      from scaleTo_loop_mono [OF r2(1), of "max f1 f2"]
      have b: "scaleTo_loop (max f1 f2) c (PyInt t) w' = Some r2" by simp
      from True a b have "scaleTo_loop (Suc (max f1 f2)) c (PyInt t) w = Some r2"
        by (simp add: scaleTo_loop_step del: scaleTo_loop.simps)
      with r2(2) show ?thesis by blast
    qed
  next
    case False
    show ?thesis
    proof (cases "t < willBeStarted (snd w)")
      case gt: True
      from scaleDown_total [of c w] obtain f1 r1 where r1: "scaleDown f1 c w = Some r1"
        "\<forall>w'. r1 = Return w' \<longrightarrow> actionable (snd w') < actionable (snd w)" by blast
      show ?thesis
      proof (cases r1)
        case (Raise err w')
        with False gt r1(1) have "scaleTo_loop (Suc f1) c (PyInt t) w = Some (Raise err w')"
          by (simp add: scaleTo_loop_step del: scaleTo_loop.simps)
        then show ?thesis by blast
      next
        case (Return w')
        with r1(2) have "actionable (snd w') < actionable (snd w)" by simp
        from less [OF this] obtain f2 r2 where r2: "scaleTo_loop f2 c (PyInt t) w' = Some r2"
          "\<forall>w2. r2 = Return w2 \<longrightarrow> willBeStarted (snd w2) = t" by blast
        from scaleDown_mono [OF r1(1), of "max f1 f2"] Return
        have a: "scaleDown (max f1 f2) c w = Some (Return w')" by simp
        from scaleTo_loop_mono [OF r2(1), of "max f1 f2"]
        have b: "scaleTo_loop (max f1 f2) c (PyInt t) w' = Some r2" by simp
        from False gt a b have "scaleTo_loop (Suc (max f1 f2)) c (PyInt t) w = Some r2"
          by (simp add: scaleTo_loop_step del: scaleTo_loop.simps)
        with r2(2) show ?thesis by blast
      qed
    next
      case eq: False
      with False have "scaleTo_loop (Suc 0) c (PyInt t) w = Some (Return w)"
        by (simp add: scaleTo_loop_step del: scaleTo_loop.simps)
      moreover from False eq have "willBeStarted (snd w) = t" by simp
      ultimately show ?thesis by blast
    qed
  qed
qed

lemma scaleTo_int_any:
  assumes "0 \<le> t"
  shows "\<exists>N r. \<forall>fuel. N \<le> fuel \<longrightarrow>
     scaleTo fuel c (PyInt t) w = Some r \<and>
     (\<forall>w2. r = Return w2 \<longrightarrow> willBeStarted (snd w2) = t)"
proof -
  from scaleTo_loop_total [of c t w] obtain N r where
    N: "scaleTo_loop N c (PyInt t) w = Some r"
    "\<forall>w2. r = Return w2 \<longrightarrow> willBeStarted (snd w2) = t" by blast
  have "scaleTo fuel c (PyInt t) w = Some r" if "N \<le> fuel" for fuel
    using scaleTo_loop_mono [OF N(1) that] assms by (simp add: scaleTo_def py_lt_def)
  with N(2) show ?thesis by blast
qed

lemma scaleTo_step:
  assumes "0 \<le> t"
  shows "scaleTo (Suc f) c (PyInt t) w =
     (if willBeStarted (snd w) < t then
        (case scaleUp f c w of None \<Rightarrow> None
         | Some (Raise err w') \<Rightarrow> Some (Raise err w')
         | Some (Return w') \<Rightarrow> scaleTo f c (PyInt t) w')
      else if t < willBeStarted (snd w) then
        (case scaleDown f c w of None \<Rightarrow> None
         | Some (Raise err w') \<Rightarrow> Some (Raise err w')
         | Some (Return w') \<Rightarrow> scaleTo f c (PyInt t) w')
      else Some (Return w))"
proof -
  have eq: "scaleTo n c (PyInt t) x = scaleTo_loop n c (PyInt t) x" for n x
    using assms by (simp add: scaleTo_def py_lt_def)
  show ?thesis unfolding eq by (rule scaleTo_loop_step)
qed

text \<open>
  C7. For every controller: scaleUp chooses the first backend in fleet order whose status is
  STOPPED; it marks it STARTING, logs the line, schedules its StartupCompleted event after
  the startup delay, and then hands the answer of the controller's onStatus to scaleBy (for
  a controller that answers 0, as the default one does, the call returns right there).
  scaleDown chooses the last backend in fleet order whose status is STARTED; it marks it
  STOPPING, logs the line, hands it to the routing layer for draining, and then does the
  same. Both calls end, whatever the controller answers. scaleUp with no STOPPED backend
  and scaleDown with no STARTED backend raise their RuntimeError and leave the whole state,
  so every backend's status, as it was. In the scenario with the backends A, B, C, all
  STOPPED, three calls of scaleUp start A, B, C in this order, and once all three have
  started scaleDown stops C; with a controller that asks for one more replica while a
  backend is STOPPED, a single call of scaleUp starts A, B, C in this order.
\<close>

theorem scaleUp_first_scaleDown_last:
  assumes "1 \<le> fuel" and "1 \<le> fuel'"
    and "firstWithStatus STOPPED (backends (snd wu)) i"
    and "0 \<le> nextStartupDelay c (snd wu)"
    and "lastWithStatus STARTED (backends (snd wd)) j"
    and "STOPPED \<notin> set (map autoScaleStatus (backends (snd ws)))"
    and "STARTED \<notin> set (map autoScaleStatus (backends (snd wt)))"
  shows "(\<exists>w1. backends (snd w1) = setStatus i STARTING (backends (snd wu)) \<and>
           logged (snd w1) = logged (snd wu) @ [(backendName (backends (snd wu) ! i), ''STARTING'')] \<and>
           events (fst w1) = events (fst wu) @
             [\<lparr>fireTime = now (fst wu) + nextStartupDelay c (snd wu),
               sequenceNumber = nextSequenceNumber (fst wu),
               callbackIdentity = StartupCompleted i\<rparr>] \<and>
           scaleUp fuel c wu =
             scaleBy (fuel - 1) c
               (onStatus c (\<lambda>s. length (backendsWithStatus s (backends (snd w1))))) w1 \<and>
           (unresponsive c \<and> 2 \<le> fuel \<longrightarrow> scaleUp fuel c wu = Some (Return w1))) \<and>
         (\<exists>w1. backends (snd w1) = setStatus j STOPPING (backends (snd wd)) \<and>
           logged (snd w1) = logged (snd wd) @ [(backendName (backends (snd wd) ! j), ''STOPPING'')] \<and>
           lbDraining (snd w1) = lbDraining (snd wd) @ [j] \<and>
           j \<notin> set (lbBackends (snd w1)) \<and>
           fst w1 = fst wd \<and>
           scaleDown fuel c wd =
             scaleBy (fuel - 1) c
               (onStatus c (\<lambda>s. length (backendsWithStatus s (backends (snd w1))))) w1 \<and>
           (unresponsive c \<and> 2 \<le> fuel \<longrightarrow> scaleDown fuel c wd = Some (Return w1))) \<and>
         (\<exists>n r. \<forall>k. n \<le> k \<longrightarrow> scaleUp k c wu = Some r) \<and>
         (\<exists>n r. \<forall>k. n \<le> k \<longrightarrow> scaleDown k c wd = Some r) \<and>
         scaleUp fuel' c' ws = Some (Raise (RuntimeError
           ''AutoScaler was asked to scale up, but no backends are available.'') ws) \<and>
         scaleDown fuel' c' wt = Some (Raise (RuntimeError
           ''AutoScaler was asked to scale down, but no backends are started.'') wt) \<and>
         map_option (\<lambda>w. (logged (snd w), map autoScaleStatus (backends (snd w))))
             (returned threeScaleUps) =
           Some ([(''A'', ''STARTING''), (''B'', ''STARTING''), (''C'', ''STARTING'')],
                 [STARTING, STARTING, STARTING]) \<and>
         map_option (\<lambda>w. map autoScaleStatus (backends (snd w))) (returned allStarted) =
           Some [STARTED, STARTED, STARTED] \<and>
         map_option (\<lambda>w. (last (logged (snd w)), map autoScaleStatus (backends (snd w))))
             (returned allStartedThenScaleDown) =
           Some ((''C'', ''STOPPING''), [STARTED, STARTED, STOPPING]) \<and>
         map_option (\<lambda>w. (logged (snd w), map autoScaleStatus (backends (snd w))))
             (returned (and_then fleetABC (scaleUp 16 eagerController))) =
           Some ([(''A'', ''STARTING''), (''B'', ''STARTING''), (''C'', ''STARTING'')],
                 [STARTING, STARTING, STARTING])"
proof -
  from assms(1) obtain f where "fuel = 1 + f" by (auto simp: le_iff_add)
  then have fuel: "fuel = Suc f" by simp
  from assms(2) obtain f' where "fuel' = 1 + f'" by (auto simp: le_iff_add)
  then have fuel': "fuel' = Suc f'" by simp
  have zero: "unresponsive c \<and> 2 \<le> fuel \<Longrightarrow> scaleBy f c (onStatus c st) x = Some (Return x)"
    for st x
  proof -
    assume a: "unresponsive c \<and> 2 \<le> fuel"
    with fuel obtain g where "f = Suc g" by (cases f) auto
    with a show ?thesis by (simp add: unresponsive_def py_eq_def)
  qed
  from scaleUp_selects [OF assms(3,4), of f] obtain w1 where
    w1: "backends (snd w1) = setStatus i STARTING (backends (snd wu))"
      "logged (snd w1) = logged (snd wu) @ [(backendName (backends (snd wu) ! i), ''STARTING'')]"
      "events (fst w1) = events (fst wu) @
             [\<lparr>fireTime = now (fst wu) + nextStartupDelay c (snd wu),
               sequenceNumber = nextSequenceNumber (fst wu),
               callbackIdentity = StartupCompleted i\<rparr>]"
      "scaleUp (Suc f) c wu =
             scaleBy f c (onStatus c (\<lambda>s. length (backendsWithStatus s (backends (snd w1))))) w1"
    by blast
  have up: "\<exists>w1. backends (snd w1) = setStatus i STARTING (backends (snd wu)) \<and>
           logged (snd w1) = logged (snd wu) @ [(backendName (backends (snd wu) ! i), ''STARTING'')] \<and>
           events (fst w1) = events (fst wu) @
             [\<lparr>fireTime = now (fst wu) + nextStartupDelay c (snd wu),
               sequenceNumber = nextSequenceNumber (fst wu),
               callbackIdentity = StartupCompleted i\<rparr>] \<and>
           scaleUp fuel c wu =
             scaleBy (fuel - 1) c
               (onStatus c (\<lambda>s. length (backendsWithStatus s (backends (snd w1))))) w1 \<and>
           (unresponsive c \<and> 2 \<le> fuel \<longrightarrow> scaleUp fuel c wu = Some (Return w1))"
    using w1 zero unfolding fuel
    by (intro exI [of _ w1]) (simp del: scaleUp.simps)
  from scaleDown_selects [OF assms(5), of f c] obtain w2 where
    w2: "backends (snd w2) = setStatus j STOPPING (backends (snd wd))"
      "logged (snd w2) = logged (snd wd) @ [(backendName (backends (snd wd) ! j), ''STOPPING'')]"
      "lbDraining (snd w2) = lbDraining (snd wd) @ [j]"
      "j \<notin> set (lbBackends (snd w2))" "fst w2 = fst wd"
      "scaleDown (Suc f) c wd =
             scaleBy f c (onStatus c (\<lambda>s. length (backendsWithStatus s (backends (snd w2))))) w2"
    by blast
  have down: "\<exists>w1. backends (snd w1) = setStatus j STOPPING (backends (snd wd)) \<and>
           logged (snd w1) = logged (snd wd) @ [(backendName (backends (snd wd) ! j), ''STOPPING'')] \<and>
           lbDraining (snd w1) = lbDraining (snd wd) @ [j] \<and>
           j \<notin> set (lbBackends (snd w1)) \<and>
           fst w1 = fst wd \<and>
           scaleDown fuel c wd =
             scaleBy (fuel - 1) c
               (onStatus c (\<lambda>s. length (backendsWithStatus s (backends (snd w1))))) w1 \<and>
           (unresponsive c \<and> 2 \<le> fuel \<longrightarrow> scaleDown fuel c wd = Some (Return w1))"
    using w2 zero unfolding fuel
    by (intro exI [of _ w2]) (simp del: scaleDown.simps)
  have tu: "\<exists>n r. \<forall>k. n \<le> k \<longrightarrow> scaleUp k c wu = Some r"
  proof -
    from scaleUp_total [of c wu] obtain n r where "scaleUp n c wu = Some r" by blast
    then have "\<forall>k. n \<le> k \<longrightarrow> scaleUp k c wu = Some r" using scaleUp_mono by blast
    then show ?thesis by blast
  qed
  have td: "\<exists>n r. \<forall>k. n \<le> k \<longrightarrow> scaleDown k c wd = Some r"
  proof -
    from scaleDown_total [of c wd] obtain n r where "scaleDown n c wd = Some r" by blast
    then have "\<forall>k. n \<le> k \<longrightarrow> scaleDown k c wd = Some r" using scaleDown_mono by blast
    then show ?thesis by blast
  qed
  note noup = scaleUp_none_stopped [OF assms(6), of f' c', folded fuel']
  note nodown = scaleDown_none_started [OF assms(7), of f' c', folded fuel']
  have s1: "map_option (\<lambda>w. (logged (snd w), map autoScaleStatus (backends (snd w))))
             (returned threeScaleUps) =
           Some ([(''A'', ''STARTING''), (''B'', ''STARTING''), (''C'', ''STARTING'')],
                 [STARTING, STARTING, STARTING])"
    by code_simp
  have s2: "map_option (\<lambda>w. map autoScaleStatus (backends (snd w))) (returned allStarted) =
           Some [STARTED, STARTED, STARTED]"
    by code_simp
  have s3: "map_option (\<lambda>w. (last (logged (snd w)), map autoScaleStatus (backends (snd w))))
             (returned allStartedThenScaleDown) =
           Some ((''C'', ''STOPPING''), [STARTED, STARTED, STOPPING])"
    by code_simp
  have s4: "map_option (\<lambda>w. (logged (snd w), map autoScaleStatus (backends (snd w))))
             (returned (and_then fleetABC (scaleUp 16 eagerController))) =
           Some ([(''A'', ''STARTING''), (''B'', ''STARTING''), (''C'', ''STARTING'')],
                 [STARTING, STARTING, STARTING])"
    by code_simp
  from up down tu td noup nodown s1 s2 s3 s4 show ?thesis by (intro conjI)
qed

theorem scaleUp_first_scaleDown_last_witness:
  "(1::nat) \<le> 2 \<and> (1::nat) \<le> 1 \<and>
   firstWithStatus STOPPED (backends (snd (the (returned fleetABC)))) 0 \<and>
   0 \<le> nextStartupDelay defaultController (snd (the (returned fleetABC))) \<and>
   lastWithStatus STARTED (backends (snd (the (returned allStarted)))) 2 \<and>
   STOPPED \<notin> set (map autoScaleStatus (backends (snd (the (returned allStarted))))) \<and>
   STARTED \<notin> set (map autoScaleStatus (backends (snd (the (returned fleetABC))))) \<and>
   unresponsive defaultController \<and>
   (\<exists>w'. scaleUp 2 defaultController (the (returned fleetABC)) = Some (Return w') \<and>
      backends (snd w') = setStatus 0 STARTING (backends (snd (the (returned fleetABC))))) \<and>
   (\<exists>w'. scaleDown 2 defaultController (the (returned allStarted)) = Some (Return w') \<and>
      backends (snd w') = setStatus 2 STOPPING (backends (snd (the (returned allStarted))))) \<and>
   scaleUp 1 defaultController (the (returned allStarted)) = Some (Raise (RuntimeError
      ''AutoScaler was asked to scale up, but no backends are available.'')
      (the (returned allStarted))) \<and>
   scaleDown 1 defaultController (the (returned fleetABC)) = Some (Raise (RuntimeError
      ''AutoScaler was asked to scale down, but no backends are started.'')
      (the (returned fleetABC)))"
proof -
  have h0: "unresponsive defaultController"
    by (simp add: unresponsive_def defaultController_def AbstractAutoScalerController_def)
  have h1: "(1::nat) \<le> 2" and h2: "(1::nat) \<le> 1" by simp_all
  have h3: "firstWithStatus STOPPED (backends (snd (the (returned fleetABC)))) 0"
    by code_simp
  have h4: "0 \<le> nextStartupDelay defaultController (snd (the (returned fleetABC)))"
    by code_simp
  have h5: "lastWithStatus STARTED (backends (snd (the (returned allStarted)))) 2"
    by code_simp
  have h6: "STOPPED \<notin> set (map autoScaleStatus (backends (snd (the (returned allStarted)))))"
    by code_simp
  have h7: "STARTED \<notin> set (map autoScaleStatus (backends (snd (the (returned fleetABC)))))"
    by code_simp
  have two: "unresponsive defaultController \<and> (2::nat) \<le> 2" using h0 by simp
  from scaleUp_first_scaleDown_last [OF h1 h2 h3 h4 h5 h6 h7, of defaultController]
    two h0 h1 h2 h3 h4 h5 h6 h7
  show ?thesis by blast
qed

text \<open>
  C8, as stated, fails: a None action is not a no-op. In Python 2 None orders below 0, so
  scaleBy(None) enters the second loop, calls scaleDown() and then raises TypeError at
  by += 1. Here, on the fleet with A, B, C all STARTED, it leaves C STOPPING.
\<close>

theorem scaleBy_None_counterexample:
  "scaleBy 6 defaultController PyNone (the (returned allStarted)) =
     Some (Raise TypeError (the (returned allStartedThenScaleDown))) \<and>
   scaleBy 6 defaultController PyNone (the (returned allStarted)) \<noteq>
     Some (Return (the (returned allStarted)))"
  by code_simp

text \<open>
  C8, amended. For every controller, scaleBy(n) for an integer n ends, and with enough fuel
  its outcome is that of n calls of scaleUp in sequence when n > 0, and of -n calls of
  scaleDown in sequence when n < 0 (in both cases the first call that raises ends the
  sequence with that exception; each call includes what the controller makes it cascade
  into). For a controller that answers every status with 0 the fuel needed is |n| + 4 and
  each call is a single unit action. scaleBy(0) and scaleBy(NaN) return with the state
  unchanged.
\<close>

theorem scaleBy_repeats_unit_actions:
  "(\<exists>N r. \<forall>fuel. N \<le> fuel \<longrightarrow>
      scaleBy fuel c (PyInt n) w = Some r \<and>
      (if 0 < n then repeat_calls (nat n) (scaleUp fuel c) w
       else repeat_calls (nat (- n)) (scaleDown fuel c) w) = Some r) \<and>
   (unresponsive c \<and> nat \<bar>n\<bar> + 4 \<le> fuel \<longrightarrow>
      scaleBy fuel c (PyInt n) w =
        (if 0 < n then repeat_calls (nat n) (scaleUp 2 c) w
         else repeat_calls (nat (- n)) (scaleDown 2 c) w) \<and>
      (\<exists>r. scaleBy fuel c (PyInt n) w = Some r)) \<and>
   (1 \<le> fuel \<longrightarrow> scaleBy fuel c (PyInt 0) w = Some (Return w)) \<and>
   (3 \<le> fuel \<longrightarrow> scaleBy fuel c PyNaN w = Some (Return w))"
proof -
  note a = scaleBy_int_any [of c n w]
  have b: "unresponsive c \<and> nat \<bar>n\<bar> + 4 \<le> fuel \<longrightarrow>
      scaleBy fuel c (PyInt n) w =
        (if 0 < n then repeat_calls (nat n) (scaleUp 2 c) w
         else repeat_calls (nat (- n)) (scaleDown 2 c) w) \<and>
      (\<exists>r. scaleBy fuel c (PyInt n) w = Some r)"
  proof (intro impI, elim conjE)
    assume u: "unresponsive c" and f: "nat \<bar>n\<bar> + 4 \<le> fuel"
    have e: "scaleBy fuel c (PyInt n) w =
           (if 0 < n then repeat_calls (nat n) (scaleUp 2 c) w
            else repeat_calls (nat (- n)) (scaleDown 2 c) w)"
      by (rule scaleBy_int [OF u f])
    have "repeat_calls (nat n) (scaleUp 2 c) w \<noteq> None"
      by (rule repeat_calls_total) (rule scaleUp_2_total [OF u])
    moreover have "repeat_calls (nat (- n)) (scaleDown 2 c) w \<noteq> None"
      by (rule repeat_calls_total) (rule scaleDown_2_total [OF u])
    ultimately have "\<exists>r. scaleBy fuel c (PyInt n) w = Some r"
      unfolding e by (cases "0 < n") auto
    with e show "scaleBy fuel c (PyInt n) w =
        (if 0 < n then repeat_calls (nat n) (scaleUp 2 c) w
         else repeat_calls (nat (- n)) (scaleDown 2 c) w) \<and>
      (\<exists>r. scaleBy fuel c (PyInt n) w = Some r)" ..
  qed
  have c0: "1 \<le> fuel \<longrightarrow> scaleBy fuel c (PyInt 0) w = Some (Return w)"
  proof
    assume "1 \<le> fuel"
    then obtain f where "fuel = Suc f" by (cases fuel) auto
    then show "scaleBy fuel c (PyInt 0) w = Some (Return w)" by (simp add: py_eq_def)
  qed
  have d: "3 \<le> fuel \<longrightarrow> scaleBy fuel c PyNaN w = Some (Return w)"
    using scaleBy_nan by blast
  from a b c0 d show ?thesis by (intro conjI)
qed

theorem scaleBy_repeats_unit_actions_witness:
  "unresponsive defaultController \<and> nat \<bar>2\<bar> + 4 \<le> (6::nat) \<and>
   scaleBy 6 defaultController (PyInt 2) (the (returned fleetABC)) =
     repeat_calls 2 (scaleUp 2 defaultController) (the (returned fleetABC)) \<and>
   scaleBy 6 defaultController PyNaN (the (returned fleetABC)) =
     Some (Return (the (returned fleetABC)))"
proof -
  have h1: "unresponsive defaultController"
    by (simp add: unresponsive_def defaultController_def AbstractAutoScalerController_def)
  have h2: "nat \<bar>2\<bar> + 4 \<le> (6::nat)" by simp
  note t = scaleBy_repeats_unit_actions [of defaultController 2 "the (returned fleetABC)" 6]
  from t h1 h2 have a: "scaleBy 6 defaultController (PyInt 2) (the (returned fleetABC)) =
     repeat_calls 2 (scaleUp 2 defaultController) (the (returned fleetABC))"
    by (simp del: scaleBy.simps scaleUp.simps repeat_calls.simps)
  from t have b: "scaleBy 6 defaultController PyNaN (the (returned fleetABC)) =
     Some (Return (the (returned fleetABC)))"
    by (simp del: scaleBy.simps scaleUp.simps repeat_calls.simps)
  from h1 h2 a b show ?thesis by (intro conjI)
qed

text \<open>
  C9, as stated, fails: a NaN target is not rejected. The guard of scaleTo returns on
  numReplicas != numReplicas, so scaleTo(NaN) is a no-op like scaleTo(None).
\<close>

theorem scaleTo_NaN_counterexample:
  "scaleTo 3 defaultController PyNaN (the (returned fleetABC)) =
     Some (Return (the (returned fleetABC)))"
  by (simp add: scaleTo_def)

text \<open>
  C9, amended. scaleTo rejects a negative integer target with its RuntimeError, whose
  message ends with the target (for -1: '... does not make sense: -1'), and leaves the
  state unchanged; a None target and a NaN target are both no-ops. For an integer target
  t >= 0 and every controller, each turn of the loop calls scaleUp while
  numStarting + numStarted is below t and scaleDown while it is above, and returns when it
  equals t; the call ends, and when it returns normally numStarting + numStarted = t. For
  a controller that answers every status with 0 it is the sequence of
  t - (numStarting + numStarted) calls of scaleUp, or of (numStarting + numStarted) - t
  calls of scaleDown (the first call that raises ends it).
\<close>

theorem scaleTo_guards_then_converges:
  assumes "0 \<le> t" and "n < 0"
  shows "scaleTo fuel' c' (PyInt n) w' = Some (Raise (RuntimeError
           (append ''Scaling to a negative number of replicas does not make sense: ''
              (py_format (PyInt n)))) w') \<and>
         scaleTo fuel' c' (PyInt (- 1)) w' = Some (Raise (RuntimeError
           ''Scaling to a negative number of replicas does not make sense: -1'') w') \<and>
         scaleTo fuel' c' PyNone w' = Some (Return w') \<and>
         scaleTo fuel' c' PyNaN w' = Some (Return w') \<and>
         (\<exists>N r. \<forall>fuel. N \<le> fuel \<longrightarrow>
            scaleTo fuel c (PyInt t) w = Some r \<and>
            (\<forall>w2. r = Return w2 \<longrightarrow> willBeStarted (snd w2) = t)) \<and>
         scaleTo (Suc f) c (PyInt t) w =
           (if willBeStarted (snd w) < t then
              (case scaleUp f c w of None \<Rightarrow> None
               | Some (Raise err w1) \<Rightarrow> Some (Raise err w1)
               | Some (Return w1) \<Rightarrow> scaleTo f c (PyInt t) w1)
            else if t < willBeStarted (snd w) then
              (case scaleDown f c w of None \<Rightarrow> None
               | Some (Raise err w1) \<Rightarrow> Some (Raise err w1)
               | Some (Return w1) \<Rightarrow> scaleTo f c (PyInt t) w1)
            else Some (Return w)) \<and>
         (unresponsive c \<and> nat \<bar>t - willBeStarted (snd w)\<bar> + 3 \<le> fuel \<longrightarrow>
            scaleTo fuel c (PyInt t) w =
              (if willBeStarted (snd w) \<le> t
               then repeat_calls (nat (t - willBeStarted (snd w))) (scaleUp 2 c) w
               else repeat_calls (nat (willBeStarted (snd w) - t)) (scaleDown 2 c) w) \<and>
            (\<exists>r. scaleTo fuel c (PyInt t) w = Some r) \<and>
            (\<forall>w2. scaleTo fuel c (PyInt t) w = Some (Return w2) \<longrightarrow>
               willBeStarted (snd w2) = t))"
proof -
  have a: "scaleTo fuel' c' (PyInt n) w' = Some (Raise (RuntimeError
           (append ''Scaling to a negative number of replicas does not make sense: ''
              (py_format (PyInt n)))) w')"
    using assms(2) by (simp add: scaleTo_def py_lt_def)
  have m: "py_format (PyInt (- 1)) = ''-1''" by code_simp
  have a1: "scaleTo fuel' c' (PyInt (- 1)) w' = Some (Raise (RuntimeError
           ''Scaling to a negative number of replicas does not make sense: -1'') w')"
    by (simp add: scaleTo_def py_lt_def m)
  have b: "scaleTo fuel' c' PyNone w' = Some (Return w')"
    and b': "scaleTo fuel' c' PyNaN w' = Some (Return w')"
    by (simp_all add: scaleTo_def)
  note g = scaleTo_int_any [OF assms(1), of c w]
  note s = scaleTo_step [OF assms(1), of f c w]
  have u: "unresponsive c \<and> nat \<bar>t - willBeStarted (snd w)\<bar> + 3 \<le> fuel \<longrightarrow>
            scaleTo fuel c (PyInt t) w =
              (if willBeStarted (snd w) \<le> t
               then repeat_calls (nat (t - willBeStarted (snd w))) (scaleUp 2 c) w
               else repeat_calls (nat (willBeStarted (snd w) - t)) (scaleDown 2 c) w) \<and>
            (\<exists>r. scaleTo fuel c (PyInt t) w = Some r) \<and>
            (\<forall>w2. scaleTo fuel c (PyInt t) w = Some (Return w2) \<longrightarrow>
               willBeStarted (snd w2) = t)"
  proof (intro impI, elim conjE)
    assume un: "unresponsive c" and fu: "nat \<bar>t - willBeStarted (snd w)\<bar> + 3 \<le> fuel"
    have d: "scaleTo fuel c (PyInt t) w =
           (if willBeStarted (snd w) \<le> t
            then repeat_calls (nat (t - willBeStarted (snd w))) (scaleUp 2 c) w
            else repeat_calls (nat (willBeStarted (snd w) - t)) (scaleDown 2 c) w)"
      by (rule scaleTo_int [OF un assms(1) fu])
    have "repeat_calls (nat (t - willBeStarted (snd w))) (scaleUp 2 c) w \<noteq> None"
      by (rule repeat_calls_total) (rule scaleUp_2_total [OF un])
    moreover have "repeat_calls (nat (willBeStarted (snd w) - t)) (scaleDown 2 c) w \<noteq> None"
      by (rule repeat_calls_total) (rule scaleDown_2_total [OF un])
    ultimately have e: "\<exists>r. scaleTo fuel c (PyInt t) w = Some r"
      unfolding d by (cases "willBeStarted (snd w) \<le> t") auto
    have x: "\<forall>w2. scaleTo fuel c (PyInt t) w = Some (Return w2) \<longrightarrow> willBeStarted (snd w2) = t"
    proof (intro allI impI)
      fix w2 assume r: "scaleTo fuel c (PyInt t) w = Some (Return w2)"
      show "willBeStarted (snd w2) = t"
      proof (cases "willBeStarted (snd w) \<le> t")
        case True
        with r d have "repeat_calls (nat (t - willBeStarted (snd w))) (scaleUp 2 c) w = Some (Return w2)"
          by simp
        from repeat_scaleUp_willBeStarted [OF un this] True show ?thesis by simp
      next
        case False
        with r d have "repeat_calls (nat (willBeStarted (snd w) - t)) (scaleDown 2 c) w = Some (Return w2)"
          by simp
        from repeat_scaleDown_willBeStarted [OF un this] False show ?thesis by simp
      qed
    qed
    from d e x show "scaleTo fuel c (PyInt t) w =
              (if willBeStarted (snd w) \<le> t
               then repeat_calls (nat (t - willBeStarted (snd w))) (scaleUp 2 c) w
               else repeat_calls (nat (willBeStarted (snd w) - t)) (scaleDown 2 c) w) \<and>
            (\<exists>r. scaleTo fuel c (PyInt t) w = Some r) \<and>
            (\<forall>w2. scaleTo fuel c (PyInt t) w = Some (Return w2) \<longrightarrow>
               willBeStarted (snd w2) = t)"
      by (intro conjI)
  qed
  from a a1 b b' g s u show ?thesis by (intro conjI)
qed

theorem scaleTo_guards_then_converges_witness:
  "(0::int) \<le> 2 \<and> (- 1::int) < 0 \<and>
   scaleTo 5 defaultController (PyInt (- 1)) (the (returned fleetABC)) =
     Some (Raise (RuntimeError
       ''Scaling to a negative number of replicas does not make sense: -1'')
       (the (returned fleetABC))) \<and>
   (\<exists>w2. scaleTo 5 defaultController (PyInt 2) (the (returned fleetABC)) = Some (Return w2) \<and>
      willBeStarted (snd w2) = 2)"
proof -
  have h1: "unresponsive defaultController"
    by (simp add: unresponsive_def defaultController_def AbstractAutoScalerController_def)
  have h2: "(0::int) \<le> 2" by simp
  have h3: "nat \<bar>2 - willBeStarted (snd (the (returned fleetABC)))\<bar> + 3 \<le> (5::nat)"
    by code_simp
  have h4: "(- 1::int) < 0" by simp
  have "returned (scaleTo 5 defaultController (PyInt 2) (the (returned fleetABC))) \<noteq> None"
    by code_simp
  then have r: "\<exists>w2. scaleTo 5 defaultController (PyInt 2) (the (returned fleetABC)) = Some (Return w2)"
    by (rule returned_not_None)
  note t = scaleTo_guards_then_converges [OF h2 h4, of 5 defaultController
      "the (returned fleetABC)" defaultController "the (returned fleetABC)" 0 5]
  from t have a: "scaleTo 5 defaultController (PyInt (- 1)) (the (returned fleetABC)) =
     Some (Raise (RuntimeError
       ''Scaling to a negative number of replicas does not make sense: -1'')
       (the (returned fleetABC)))"
    by (elim conjE)
  from t h1 h3 have g: "\<forall>w2. scaleTo 5 defaultController (PyInt 2) (the (returned fleetABC)) =
      Some (Return w2) \<longrightarrow> willBeStarted (snd w2) = 2"
    by (elim conjE) blast
  from r g have "\<exists>w2. scaleTo 5 defaultController (PyInt 2) (the (returned fleetABC)) =
      Some (Return w2) \<and> willBeStarted (snd w2) = 2"
    by blast
  with h2 h4 a show ?thesis by (intro conjI)
qed

section \<open>Properties of the replica\<close>

lemma length_filter_remove1:
  "length (filter P (remove1 e es)) =
     length (filter P es) - (if P e \<and> e \<in> set es then 1 else 0)"
  by (auto simp: filter_remove1 length_remove1)

lemma add_Inr:
  "add d cb k = Inr k' \<longleftrightarrow> 0 \<le> d \<and>
     k' = k\<lparr>events := events k @ [\<lparr>fireTime = now k + d, sequenceNumber = nextSequenceNumber k,
                                    callbackIdentity = cb\<rparr>],
            nextSequenceNumber := Suc (nextSequenceNumber k)\<rparr>"
  by (auto simp: add_def)

lemma inv_start:
  assumes "Replica_init slice y n name SimulatorKernel = Inr w"
  shows "replica_inv w"
  using assms
  by (auto simp: Replica_init_def runReportLoop_def Let_def add_Inr SimulatorKernel_def
      replica_inv_def ginv_def pendingSchedulingEvents_def schedulingEvent_def split: sum.splits)

lemma inv_arrive:
  assumes "replica_inv w" and "request nv rid rto headers w = Inr w'"
  shows "replica_inv w'"
proof (cases "activeRequests (snd w) = []")
  case True
  with assms show ?thesis
    by (auto simp: request_def Let_def add_Inr drawServiceTime_def
      replica_inv_def ginv_def pendingSchedulingEvents_def schedulingEvent_def split: sum.splits)
next
  case False
  with assms show ?thesis
    by (auto simp: request_def Let_def add_Inr drawServiceTime_def
      replica_inv_def ginv_def pendingSchedulingEvents_def schedulingEvent_def split: sum.splits)
qed

lemma inv_elapse:
  assumes "replica_inv w" and "now (fst w) \<le> t" and "list_all (\<lambda>e. t \<le> fireTime e) (events (fst w))"
  shows "replica_inv ((fst w)\<lparr>now := t\<rparr>, snd w)"
  using assms
  by (auto simp: replica_inv_def ginv_def pendingSchedulingEvents_def list_all_iff)


lemma replica_inv_ginv:
  "replica_inv w \<longleftrightarrow> ginv (if activeRequests (snd w) = [] then 0 else 1) w"
  by (simp add: replica_inv_def)

lemma ginv_0_no_sched:
  assumes "ginv 0 w" and "e \<in> set (events (fst w))"
  shows "callbackIdentity e = ReportLoop"
proof -
  from assms(1) have "filter schedulingEvent (events (fst w)) = []"
    by (simp add: ginv_def pendingSchedulingEvents_def)
  with assms(2) have "\<not> schedulingEvent e"
    by (simp add: filter_empty_conv)
  then show ?thesis
    by (cases "callbackIdentity e") (simp_all add: schedulingEvent_def)
qed

lemma ginv_popped:
  assumes "replica_inv w" and "earliest (events (fst w)) = Some e"
  shows "ginv ((if activeRequests (snd w) = [] then 0 else 1) - (if schedulingEvent e then 1 else 0))
           ((fst w)\<lparr>now := fireTime e, events := remove1 e (events (fst w))\<rparr>, snd w)"
proof -
  from assms(2) have mem: "e \<in> set (events (fst w))" by (rule earliest_mem)
  have le: "\<And>e'. e' \<in> set (events (fst w)) \<Longrightarrow> fireTime e \<le> fireTime e'"
    using earliest_le [OF assms(2)] by simp
  have sub: "\<And>e'. e' \<in> set (remove1 e (events (fst w))) \<Longrightarrow> e' \<in> set (events (fst w))"
    by (metis notin_set_remove1)
  from assms(1) have now: "now (fst w) \<le> fireTime e"
    using mem by (simp add: replica_inv_def ginv_def)
  have c1: "length (filter schedulingEvent (remove1 e (events (fst w)))) =
      (if activeRequests (snd w) = [] then 0 else 1) - (if schedulingEvent e then 1 else 0)"
    using assms(1) mem
    by (simp add: replica_inv_def ginv_def pendingSchedulingEvents_def length_filter_remove1)
  have c2: "\<forall>e' \<in> set (remove1 e (events (fst w))). callbackIdentity e' = Completed \<longrightarrow>
        activeRequests (snd w) \<noteq> [] \<and> remainingTime (hd (activeRequests (snd w))) = 0 \<and>
        activeTimeStarted (snd w) \<noteq> None"
    using assms(1) by (auto simp: replica_inv_def ginv_def dest: sub)
  have c3: "\<forall>x \<in> set (activeRequests (snd w)). 0 \<le> remainingTime x \<and> arrival x \<le> fireTime e"
  proof
    fix x assume "x \<in> set (activeRequests (snd w))"
    with assms(1) have "0 \<le> remainingTime x" "arrival x \<le> now (fst w)"
      by (simp_all add: replica_inv_def ginv_def)
    with now show "0 \<le> remainingTime x \<and> arrival x \<le> fireTime e" by simp
  qed
  have c4: "\<forall>e' \<in> set (remove1 e (events (fst w))). fireTime e \<le> fireTime e'"
    using sub le by blast
  have c5: "reportPeriod (snd w) = 1"
    using assms(1) by (simp add: replica_inv_def ginv_def)
  from c1 c2 c3 c4 c5 show ?thesis
    by (simp add: ginv_def pendingSchedulingEvents_def)
qed

lemma ginv_runReportLoop:
  assumes "ginv n w" and "runReportLoop w = Inr w'"
  shows "ginv n w' \<and> activeRequests (snd w') = activeRequests (snd w)"
  using assms
  by (auto simp: runReportLoop_def Let_def add_Inr ginv_def pendingSchedulingEvents_def
      schedulingEvent_def split: if_splits sum.splits)

lemma ginv_onScheduleRequests:
  assumes "ginv 0 w" and "onScheduleRequests w = Inr w'"
  shows "replica_inv w'"
proof -
  have nosched: "\<And>e. e \<in> set (events (fst w)) \<Longrightarrow> callbackIdentity e = ReportLoop"
    using ginv_0_no_sched [OF assms(1)] by simp
  from assms show ?thesis
    unfolding replica_inv_def ginv_def pendingSchedulingEvents_def
    by (auto simp: onScheduleRequests_def Let_def add_Inr schedulingEvent_def
        dest!: nosched split: list.splits if_splits sum.splits option.splits)
qed


lemma onCompleted_cases:
  assumes "onCompleted w = Inr w'"
  obtains started req rest where
    "activeTimeStarted (snd w) = Some started" and "activeRequests (snd w) = req # rest"
    and "(rest = [] \<and> w' = (fst w, (snd w)\<lparr>activeTime := activeTime (snd w) + (now (fst w) - started),
                             activeTimeStarted := None, activeRequests := [],
                             departed := departed (snd w) @ [req\<lparr>departure := Some (now (fst w))\<rparr>],
                             latestLatencies := latestLatencies (snd w) @ [now (fst w) - arrival req],
                             replied := replied (snd w) @
                                 [\<lparr>replyAt = now (fst w), replyReceiver = replyTo req,
                                   replyRequestId = requestId req,
                                   replyWithOptional = withOptional req\<rparr>]\<rparr>)) \<or>
         (rest \<noteq> [] \<and> onScheduleRequests (fst w, (snd w)\<lparr>activeTime := activeTime (snd w) + (now (fst w) - started),
                             activeTimeStarted := None, activeRequests := rest,
                             departed := departed (snd w) @ [req\<lparr>departure := Some (now (fst w))\<rparr>],
                             latestLatencies := latestLatencies (snd w) @ [now (fst w) - arrival req],
                             replied := replied (snd w) @
                                 [\<lparr>replyAt = now (fst w), replyReceiver = replyTo req,
                                   replyRequestId = requestId req,
                                   replyWithOptional = withOptional req\<rparr>]\<rparr>) = Inr w')"
  using assms
  by (auto simp: onCompleted_def Let_def split: option.splits list.splits if_splits)

lemma ginv_onCompleted:
  assumes "ginv 0 w" and "onCompleted w = Inr w'"
  shows "replica_inv w'"
proof -
  have nosched: "\<And>e. e \<in> set (events (fst w)) \<Longrightarrow> callbackIdentity e = ReportLoop"
    using ginv_0_no_sched [OF assms(1)] by simp
  from assms(2) show ?thesis
  proof (cases rule: onCompleted_cases)
    case (1 started req rest)
    from 1(3) show ?thesis
    proof (elim disjE conjE)
      assume "rest = []" and w': "w' = (fst w, (snd w)\<lparr>activeTime := activeTime (snd w) + (now (fst w) - started),
                             activeTimeStarted := None, activeRequests := [],
                             departed := departed (snd w) @ [req\<lparr>departure := Some (now (fst w))\<rparr>],
                             latestLatencies := latestLatencies (snd w) @ [now (fst w) - arrival req],
                             replied := replied (snd w) @
                                 [\<lparr>replyAt = now (fst w), replyReceiver = replyTo req,
                                   replyRequestId = requestId req,
                                   replyWithOptional = withOptional req\<rparr>]\<rparr>)"
      from assms(1) show ?thesis
        unfolding w' replica_inv_def ginv_def pendingSchedulingEvents_def
        by (auto dest!: nosched)
    next
      assume "rest \<noteq> []" and sch: "onScheduleRequests (fst w, (snd w)\<lparr>activeTime := activeTime (snd w) + (now (fst w) - started),
                             activeTimeStarted := None, activeRequests := rest,
                             departed := departed (snd w) @ [req\<lparr>departure := Some (now (fst w))\<rparr>],
                             latestLatencies := latestLatencies (snd w) @ [now (fst w) - arrival req],
                             replied := replied (snd w) @
                                 [\<lparr>replyAt = now (fst w), replyReceiver = replyTo req,
                                   replyRequestId = requestId req,
                                   replyWithOptional = withOptional req\<rparr>]\<rparr>) = Inr w'"
      have "ginv 0 (fst w, (snd w)\<lparr>activeTime := activeTime (snd w) + (now (fst w) - started),
                             activeTimeStarted := None, activeRequests := rest,
                             departed := departed (snd w) @ [req\<lparr>departure := Some (now (fst w))\<rparr>],
                             latestLatencies := latestLatencies (snd w) @ [now (fst w) - arrival req],
                             replied := replied (snd w) @
                                 [\<lparr>replyAt = now (fst w), replyReceiver = replyTo req,
                                   replyRequestId = requestId req,
                                   replyWithOptional = withOptional req\<rparr>]\<rparr>)"
        using assms(1) 1(2)
        unfolding ginv_def pendingSchedulingEvents_def
        by (auto dest!: nosched)
      from ginv_onScheduleRequests [OF this sch] show ?thesis .
    qed
  qed
qed

lemma inv_turn:
  assumes "replica_inv w" and "earliest (events (fst w)) = Some e"
    and "fire replica_handler e w = Inr w'"
  shows "replica_inv w'"
proof -
  let ?w0 = "((fst w)\<lparr>now := fireTime e, events := remove1 e (events (fst w))\<rparr>, snd w)"
  note popped = ginv_popped [OF assms(1,2)]
  from assms(2) have mem: "e \<in> set (events (fst w))" by (rule earliest_mem)
  show ?thesis
  proof (cases "callbackIdentity e")
    case ReportLoop
    then have "\<not> schedulingEvent e" by (simp add: schedulingEvent_def)
    with popped have g: "ginv (if activeRequests (snd w) = [] then 0 else 1) ?w0" by simp
    from assms(3) ReportLoop have "runReportLoop ?w0 = Inr w'" by (simp add: fire_def)
    from ginv_runReportLoop [OF g this] show ?thesis
      by (simp add: replica_inv_ginv)
  next
    case ScheduleRequests
    then have s: "schedulingEvent e" by (simp add: schedulingEvent_def)
    with mem have "pendingSchedulingEvents w \<noteq> []"
      by (auto simp: pendingSchedulingEvents_def filter_empty_conv)
    with assms(1) have "activeRequests (snd w) \<noteq> []"
      by (auto simp: replica_inv_def ginv_def split: if_splits)
    with popped s have g: "ginv 0 ?w0" by simp
    from assms(3) ScheduleRequests have "onScheduleRequests ?w0 = Inr w'" by (simp add: fire_def)
    from ginv_onScheduleRequests [OF g this] show ?thesis .
  next
    case Completed
    then have s: "schedulingEvent e" by (simp add: schedulingEvent_def)
    with mem have "pendingSchedulingEvents w \<noteq> []"
      by (auto simp: pendingSchedulingEvents_def filter_empty_conv)
    with assms(1) have "activeRequests (snd w) \<noteq> []"
      by (auto simp: replica_inv_def ginv_def split: if_splits)
    with popped s have g: "ginv 0 ?w0" by simp
    from assms(3) Completed have "onCompleted ?w0 = Inr w'" by (simp add: fire_def)
    from ginv_onCompleted [OF g this] show ?thesis .
  qed
qed

lemma reachable_inv: "reachable nv w \<Longrightarrow> replica_inv w"
proof (induction rule: reachable.induct)
  case (start slice y n name w)
  then show ?case by (rule inv_start)
next
  case (arrive w rid rto headers w')
  then show ?case using inv_arrive by blast
next
  case (turn w e w')
  then show ?case using inv_turn by blast
next
  case (elapse w t)
  then show ?case using inv_elapse by blast
qed

lemma request_effect:
  "request nv rid rto headers w =
     Inr ((fst w)\<lparr>events := events (fst w) @
              (if activeRequests (snd w) = []
               then [\<lparr>fireTime = now (fst w), sequenceNumber = nextSequenceNumber (fst w),
                      callbackIdentity = ScheduleRequests\<rparr>]
               else []),
            nextSequenceNumber := (if activeRequests (snd w) = []
               then Suc (nextSequenceNumber (fst w)) else nextSequenceNumber (fst w))\<rparr>,
          (snd w)\<lparr>randomCalls := Suc (randomCalls (snd w)),
            activeRequests := activeRequests (snd w) @
              [\<lparr>requestId = rid, replyTo = rto,
                withOptional = (case headers ''withOptional'' of None \<Rightarrow> False | Some b \<Rightarrow> b),
                arrival = now (fst w), departure = None,
                remainingTime =
                  max (nv (randomCalls (snd w))
                        (fst (if (case headers ''withOptional'' of None \<Rightarrow> False | Some b \<Rightarrow> b)
                              then timeY (snd w) else timeN (snd w)))
                        (snd (if (case headers ''withOptional'' of None \<Rightarrow> False | Some b \<Rightarrow> b)
                              then timeY (snd w) else timeN (snd w)))) 0\<rparr>]\<rparr>)"
  by (cases "fst w") (simp add: request_def add_def drawServiceTime_def Let_def)

text \<open>
  C4. In every state a replica and its kernel can reach (between two turns of the kernel's
  loop), exactly one scheduling event of the replica (dispatch or completion step) is
  pending when the request queue is not empty, and none when it is empty. request always
  succeeds, appends one request, and adds the dispatch step with delay 0 exactly when the
  queue was empty before; afterwards one scheduling event is pending.
\<close>

theorem one_scheduling_event_iff_busy:
  assumes "reachable normalvariate w"
  shows "length (pendingSchedulingEvents w) = (if activeRequests (snd w) = [] then 0 else 1) \<and>
         (\<exists>w'. request normalvariate rid rto headers w = Inr w' \<and>
            length (activeRequests (snd w')) = Suc (length (activeRequests (snd w))) \<and>
            events (fst w') = events (fst w) @
              (if activeRequests (snd w) = []
               then [\<lparr>fireTime = now (fst w) + 0, sequenceNumber = nextSequenceNumber (fst w),
                      callbackIdentity = ScheduleRequests\<rparr>]
               else []) \<and>
            length (pendingSchedulingEvents w') = 1)"
proof -
  from assms have inv: "replica_inv w" by (rule reachable_inv)
  then have a: "length (pendingSchedulingEvents w) = (if activeRequests (snd w) = [] then 0 else 1)"
    by (simp add: replica_inv_def ginv_def)
  obtain w' where r: "request normalvariate rid rto headers w = Inr w'"
    by (simp add: request_effect)
  from inv_arrive [OF inv r] have "replica_inv w'" .
  moreover from r have q: "activeRequests (snd w') \<noteq> []"
    "length (activeRequests (snd w')) = Suc (length (activeRequests (snd w)))"
    "events (fst w') = events (fst w) @
              (if activeRequests (snd w) = []
               then [\<lparr>fireTime = now (fst w) + 0, sequenceNumber = nextSequenceNumber (fst w),
                      callbackIdentity = ScheduleRequests\<rparr>]
               else [])"
    by (auto simp: request_effect)
  ultimately have "length (pendingSchedulingEvents w') = 1"
    by (simp add: replica_inv_def ginv_def)
  with a r q show ?thesis by blast
qed


lemma twoRequests_reachable:
  "\<exists>w. twoRequests 1 3 1 = Inr w \<and> reachable meanGenerator w \<and> activeRequests (snd w) \<noteq> []"
proof -
  obtain w0 where w0: "Replica_init 1 (3, 0) (1, 0) ''replica0'' SimulatorKernel = Inr w0"
    by (simp add: Replica_init_def runReportLoop_def add_def Let_def)
  then have r0: "reachable meanGenerator w0" by (rule reachable.start)
  obtain w1 where w1: "request meanGenerator 1 7 [''withOptional'' \<mapsto> True] w0 = Inr w1"
    by (simp add: request_effect)
  from reachable.arrive [OF r0 w1] have r1: "reachable meanGenerator w1" .
  obtain w2 where w2: "request meanGenerator 2 7 Map.empty w1 = Inr w2"
    by (simp add: request_effect)
  from reachable.arrive [OF r1 w2] have r2: "reachable meanGenerator w2" .
  from w2 have "activeRequests (snd w2) \<noteq> []" by (auto simp: request_effect)
  with w0 w1 w2 r2 show ?thesis by (simp add: twoRequests_def)
qed

theorem one_scheduling_event_iff_busy_witness:
  "\<exists>w. twoRequests 1 3 1 = Inr w \<and> reachable meanGenerator w \<and>
        length (pendingSchedulingEvents w) = 1"
proof -
  from twoRequests_reachable obtain w where w: "twoRequests 1 3 1 = Inr w"
    "reachable meanGenerator w" "activeRequests (snd w) \<noteq> []" by blast
  from one_scheduling_event_iff_busy [OF w(2)] w show ?thesis by auto
qed

lemma shrunk_refl: "0 \<le> remainingTime r \<Longrightarrow> shrunk r r"
  by (simp add: shrunk_def)

lemma list_all2_shrunk_refl:
  "\<forall>x \<in> set q. 0 \<le> remainingTime x \<Longrightarrow> list_all2 shrunk q q"
  by (simp add: list_all2_same shrunk_refl)

lemma onScheduleRequests_queue:
  assumes "onScheduleRequests w = Inr w'" and "\<forall>x \<in> set (activeRequests (snd w)). 0 \<le> remainingTime x"
  shows "list_all2 shrunk (activeRequests (snd w)) (activeRequests (snd w')) \<or>
         list_all2 shrunk (rotate1 (activeRequests (snd w))) (activeRequests (snd w'))"
proof (cases "activeRequests (snd w)")
  case Nil
  with assms(1) show ?thesis by (simp add: onScheduleRequests_def)
next
  case (Cons a rest)
  let ?t = "min (timeSlice (snd w)) (remainingTime a)"
  let ?a' = "a\<lparr>remainingTime := remainingTime a - ?t\<rparr>"
  from assms(2) Cons have a0: "0 \<le> remainingTime a" and rest0: "\<forall>x \<in> set rest. 0 \<le> remainingTime x"
    by simp_all
  from assms(1) Cons have t0: "0 \<le> ?t"
    by (auto simp: onScheduleRequests_def Let_def add_def split: if_splits)
  with a0 have sh: "shrunk a ?a'" by (simp add: shrunk_def)
  from assms(1) Cons have "activeRequests (snd w') = ?a' # rest \<or> activeRequests (snd w') = rest @ [?a']"
    by (auto simp: onScheduleRequests_def Let_def add_def split: if_splits)
  then show ?thesis
  proof
    assume "activeRequests (snd w') = ?a' # rest"
    with sh rest0 Cons show ?thesis by (simp add: list_all2_shrunk_refl)
  next
    assume "activeRequests (snd w') = rest @ [?a']"
    with sh rest0 Cons show ?thesis by (simp add: list_all2_appendI list_all2_shrunk_refl)
  qed
qed

lemma turn_served:
  assumes "replica_inv w" and "earliest (events (fst w)) = Some e"
    and "fire replica_handler e w = Inr w'"
  shows "served (activeRequests (snd w)) (activeRequests (snd w'))"
proof -
  let ?w0 = "((fst w)\<lparr>now := fireTime e, events := remove1 e (events (fst w))\<rparr>, snd w)"
  from assms(1) have nn: "\<forall>x \<in> set (activeRequests (snd w)). 0 \<le> remainingTime x"
    by (simp add: replica_inv_def ginv_def)
  from assms(2) have mem: "e \<in> set (events (fst w))" by (rule earliest_mem)
  show ?thesis
  proof (cases "callbackIdentity e")
    case ReportLoop
    with assms(3) have "runReportLoop ?w0 = Inr w'" by (simp add: fire_def)
    then have "activeRequests (snd w') = activeRequests (snd w)"
      by (auto simp: runReportLoop_def Let_def add_def split: if_splits)
    with nn show ?thesis by (simp add: served_def list_all2_shrunk_refl)
  next
    case ScheduleRequests
    with assms(3) have "onScheduleRequests ?w0 = Inr w'" by (simp add: fire_def)
    from onScheduleRequests_queue [OF this] nn show ?thesis by (auto simp: served_def)
  next
    case Completed
    with assms(1) mem have hd0: "activeRequests (snd w) \<noteq> []"
      "remainingTime (hd (activeRequests (snd w))) = 0"
      by (auto simp: replica_inv_def ginv_def)
    then obtain a rest where q: "activeRequests (snd w) = a # rest" by (cases "activeRequests (snd w)") auto
    from nn q have rest0: "\<forall>x \<in> set rest. 0 \<le> remainingTime x" by simp
    from assms(3) Completed have c: "onCompleted ?w0 = Inr w'" by (simp add: fire_def)
    from c show ?thesis
    proof (cases rule: onCompleted_cases)
      case (1 started req rest')
      from 1(2) q have eq: "req = a" "rest' = rest" by simp_all
      from 1(3) show ?thesis
      proof (elim disjE conjE)
        assume "rest' = []" and "w' = (fst ?w0, (snd ?w0)\<lparr>activeTime := activeTime (snd ?w0) + (now (fst ?w0) - started),
                             activeTimeStarted := None, activeRequests := [],
                             departed := departed (snd ?w0) @ [req\<lparr>departure := Some (now (fst ?w0))\<rparr>],
                             latestLatencies := latestLatencies (snd ?w0) @ [now (fst ?w0) - arrival req],
                             replied := replied (snd ?w0) @
                                 [\<lparr>replyAt = now (fst ?w0), replyReceiver = replyTo req,
                                   replyRequestId = requestId req,
                                   replyWithOptional = withOptional req\<rparr>]\<rparr>)"
        with q eq hd0 show ?thesis by (simp add: served_def)
      next
        assume "rest' \<noteq> []" and sch: "onScheduleRequests (fst ?w0, (snd ?w0)\<lparr>activeTime := activeTime (snd ?w0) + (now (fst ?w0) - started),
                             activeTimeStarted := None, activeRequests := rest',
                             departed := departed (snd ?w0) @ [req\<lparr>departure := Some (now (fst ?w0))\<rparr>],
                             latestLatencies := latestLatencies (snd ?w0) @ [now (fst ?w0) - arrival req],
                             replied := replied (snd ?w0) @
                                 [\<lparr>replyAt = now (fst ?w0), replyReceiver = replyTo req,
                                   replyRequestId = requestId req,
                                   replyWithOptional = withOptional req\<rparr>]\<rparr>) = Inr w'"
        from onScheduleRequests_queue [OF sch] rest0 eq
        have "list_all2 shrunk rest (activeRequests (snd w')) \<or>
              list_all2 shrunk (rotate1 rest) (activeRequests (snd w'))" by simp
        with q hd0 show ?thesis by (auto simp: served_def)
      qed
    qed
  qed
qed


lemma shrunk_trans: "shrunk a b \<Longrightarrow> shrunk b c \<Longrightarrow> shrunk a c"
  by (cases a, cases b, cases c) (auto simp: shrunk_def)

text \<open>
  C5. In every reachable state: request draws the remaining time of the new request as
  max(normalvariate(mu, sigma), 0) with (mu, sigma) = timeY when the header withOptional is
  True and timeN otherwise, so it is not negative; no queued request has a negative
  remaining time; a turn of the kernel leaves in the queue the same requests (in the same
  order or rotated by one place, possibly without a completed head whose remaining time
  was 0) with remaining times that are not larger; and a completion step is pending only
  while the head request's remaining time is exactly 0.
\<close>

theorem remaining_time_only_decreases:
  assumes "reachable normalvariate w"
  shows "(\<exists>w' req. request normalvariate rid rto headers w = Inr w' \<and>
            activeRequests (snd w') = activeRequests (snd w) @ [req] \<and>
            remainingTime req =
              max (normalvariate (randomCalls (snd w))
                    (fst (if headers ''withOptional'' = Some True then timeY (snd w) else timeN (snd w)))
                    (snd (if headers ''withOptional'' = Some True then timeY (snd w) else timeN (snd w))))
                  0 \<and>
            0 \<le> remainingTime req) \<and>
         (\<forall>x \<in> set (activeRequests (snd w)). 0 \<le> remainingTime x) \<and>
         (\<forall>e w'. earliest (events (fst w)) = Some e \<and> fire replica_handler e w = Inr w' \<longrightarrow>
            served (activeRequests (snd w)) (activeRequests (snd w'))) \<and>
         (\<forall>e \<in> set (events (fst w)). callbackIdentity e = Completed \<longrightarrow>
            activeRequests (snd w) \<noteq> [] \<and> remainingTime (hd (activeRequests (snd w))) = 0)"
proof -
  from assms have inv: "replica_inv w" by (rule reachable_inv)
  have a: "\<exists>w' req. request normalvariate rid rto headers w = Inr w' \<and>
            activeRequests (snd w') = activeRequests (snd w) @ [req] \<and>
            remainingTime req =
              max (normalvariate (randomCalls (snd w))
                    (fst (if headers ''withOptional'' = Some True then timeY (snd w) else timeN (snd w)))
                    (snd (if headers ''withOptional'' = Some True then timeY (snd w) else timeN (snd w))))
                  0 \<and>
            0 \<le> remainingTime req"
    by (cases "headers ''withOptional''") (auto simp: request_effect)
  have b: "\<forall>x \<in> set (activeRequests (snd w)). 0 \<le> remainingTime x"
    using inv by (simp add: replica_inv_def ginv_def)
  have c: "\<forall>e w'. earliest (events (fst w)) = Some e \<and> fire replica_handler e w = Inr w' \<longrightarrow>
            served (activeRequests (snd w)) (activeRequests (snd w'))"
    using turn_served [OF inv] by blast
  have d: "\<forall>e \<in> set (events (fst w)). callbackIdentity e = Completed \<longrightarrow>
            activeRequests (snd w) \<noteq> [] \<and> remainingTime (hd (activeRequests (snd w))) = 0"
    using inv by (simp add: replica_inv_def ginv_def)
  from a b c d show ?thesis by (intro conjI)
qed

theorem remaining_time_only_decreases_witness:
  "\<exists>w. twoRequests 1 3 1 = Inr w \<and> reachable meanGenerator w \<and>
        list_all (\<lambda>x. 0 \<le> remainingTime x) (activeRequests (snd w))"
proof -
  from twoRequests_reachable obtain w where w: "twoRequests 1 3 1 = Inr w"
    "reachable meanGenerator w" by blast
  from remaining_time_only_decreases [OF w(2)] w show ?thesis
    by (auto simp: list_all_iff)
qed

lemma onCompleted_reply:
  assumes "onCompleted w1 = Inr w2" and "activeRequests (snd w1) = r # rest"
  shows "replied (snd w2) = replied (snd w1) @
           [\<lparr>replyAt = now (fst w1), replyReceiver = replyTo r, replyRequestId = requestId r,
             replyWithOptional = withOptional r\<rparr>] \<and>
         departed (snd w2) = departed (snd w1) @ [r\<lparr>departure := Some (now (fst w1))\<rparr>]"
  using assms
  by (auto simp: onCompleted_def onScheduleRequests_def Let_def add_def
      split: option.splits list.splits if_splits)

text \<open>
  C10. When the headers of a request do not have the key withOptional, the request is
  created with withOptional = False and a service time drawn as
  max(normalvariate(mu, sigma), 0) from timeN; and when that request (after any amount of
  service) is completed, the reply carries the headers withOptional = False. In the
  scenario with quantum 1 and service times 3 (with optional content) and 2 (without), the
  request without the key is served for 2 time units and replied with False.
\<close>

theorem missing_header_means_without_optional:
  assumes "headers ''withOptional'' = None"
  shows "(\<exists>w' req. request normalvariate rid rto headers w = Inr w' \<and>
            activeRequests (snd w') = activeRequests (snd w) @ [req] \<and>
            requestId req = rid \<and> replyTo req = rto \<and> withOptional req = False \<and>
            remainingTime req =
              max (normalvariate (randomCalls (snd w)) (fst (timeN (snd w))) (snd (timeN (snd w)))) 0 \<and>
            (\<forall>r' rest w1 w2. shrunk req r' \<and> activeRequests (snd w1) = r' # rest \<and>
               onCompleted w1 = Inr w2 \<longrightarrow>
               replied (snd w2) = replied (snd w1) @
                 [\<lparr>replyAt = now (fst w1), replyReceiver = rto, replyRequestId = rid,
                   replyWithOptional = False\<rparr>])) \<and>
         twoRequestsReplies 12 5 1 3 2 =
           Some [\<lparr>replyAt = 4, replyReceiver = 7, replyRequestId = 2, replyWithOptional = False\<rparr>,
                 \<lparr>replyAt = 5, replyReceiver = 7, replyRequestId = 1, replyWithOptional = True\<rparr>]"
proof -
  let ?req = "\<lparr>requestId = rid, replyTo = rto, withOptional = False,
                arrival = now (fst w), departure = None,
                remainingTime = max (normalvariate (randomCalls (snd w)) (fst (timeN (snd w))) (snd (timeN (snd w)))) 0\<rparr>"
  have r: "\<exists>w'. request normalvariate rid rto headers w = Inr w' \<and>
            activeRequests (snd w') = activeRequests (snd w) @ [?req]"
    using assms by (simp add: request_effect)
  have c: "\<forall>r' rest w1 w2. shrunk ?req r' \<and> activeRequests (snd w1) = r' # rest \<and>
               onCompleted w1 = Inr w2 \<longrightarrow>
               replied (snd w2) = replied (snd w1) @
                 [\<lparr>replyAt = now (fst w1), replyReceiver = rto, replyRequestId = rid,
                   replyWithOptional = False\<rparr>]"
  proof (intro allI impI, elim conjE)
    fix r' rest w1 w2
    assume sh: "shrunk ?req r'" and q: "activeRequests (snd w1) = r' # rest"
      and oc: "onCompleted w1 = Inr w2"
    from sh have "replyTo r' = rto" "requestId r' = rid" "withOptional r' = False"
      by (cases r', simp add: shrunk_def)+
    with onCompleted_reply [OF oc q]
    show "replied (snd w2) = replied (snd w1) @
                 [\<lparr>replyAt = now (fst w1), replyReceiver = rto, replyRequestId = rid,
                   replyWithOptional = False\<rparr>]" by simp
  qed
  have t: "twoRequestsReplies 12 5 1 3 2 =
           Some [\<lparr>replyAt = 4, replyReceiver = 7, replyRequestId = 2, replyWithOptional = False\<rparr>,
                 \<lparr>replyAt = 5, replyReceiver = 7, replyRequestId = 1, replyWithOptional = True\<rparr>]"
    by code_simp
  from r c t show ?thesis by auto
qed

theorem missing_header_means_without_optional_witness:
  "(Map.empty :: string \<rightharpoonup> bool) ''withOptional'' = None \<and>
   (\<exists>w w' req. Replica_init 1 (3, 0) (1, 0) ''replica0'' SimulatorKernel = Inr w \<and>
      request meanGenerator 2 7 Map.empty w = Inr w' \<and>
      activeRequests (snd w') = [req] \<and> withOptional req = False \<and> remainingTime req = 1)"
proof -
  have h: "(Map.empty :: string \<rightharpoonup> bool) ''withOptional'' = None" by simp
  obtain w where w: "Replica_init 1 (3, 0) (1, 0) ''replica0'' SimulatorKernel = Inr w"
      and q: "activeRequests (snd w) = []" and n: "timeN (snd w) = (1, 0)"
    by (simp add: Replica_init_def runReportLoop_def add_def Let_def)
  from missing_header_means_without_optional [OF h, of meanGenerator 2 7 w] w q n h
  show ?thesis by (auto simp: meanGenerator_def)
qed



















































end
